theory Spec2Isabelle
  imports Main
begin

section \<open>Values and abort reasons\<close>

text \<open>
  JavaScript values as far as the library inspects them. A \<open>DomEx i name message\<close> is a
  DOMException object: \<open>i\<close> is its identity (two objects built by two \<open>new\<close> expressions
  differ in it), \<open>name\<close> and \<open>message\<close> are its properties. \<open>Thenable k\<close> is a promise-like
  value, which the promise primitive treats specially when it is passed to \<open>resolve\<close>.
\<close>

datatype jsval =
    Undefined
  | Null
  | Str string
  | Num int
  | DomEx nat string string
  | Thenable nat

text \<open>\<open>isTimeoutError\<close> and \<open>isAbortError\<close>: a DOMException with the given name.\<close>

definition isTimeoutError :: "jsval \<Rightarrow> bool" where
  "isTimeoutError error = (case error of DomEx _ name _ \<Rightarrow> name = ''TimeoutError'' | _ \<Rightarrow> False)"

definition isAbortError :: "jsval \<Rightarrow> bool" where
  "isAbortError error = (case error of DomEx _ name _ \<Rightarrow> name = ''AbortError'' | _ \<Rightarrow> False)"

text \<open>The left operand of \<open>??\<close> is replaced when it is \<open>null\<close> or \<open>undefined\<close>.\<close>

definition nullish :: "jsval \<Rightarrow> bool" where
  "nullish v = (v = Undefined \<or> v = Null)"

section \<open>The object store\<close>

text \<open>
  A reference to an \<open>AbortSignal\<close>: an \<open>AbortSignalPlus\<close> of the library (\<open>Plus\<close>) or a
  native signal of the host (\<open>Native\<close>). \<open>instanceof AbortSignalPlus\<close> is the test for the
  constructor.
\<close>

datatype sigref = Plus nat | Native nat

text \<open>
  The closures the library registers as \<open>abort\<close> listeners, one constructor for each place
  of the source that builds one, with the variables the closure captures:
  \<^item> \<open>ListenCb p sg\<close>: \<open>() => { this._doAbort(signal.reason) }\<close> of \<open>AbortablePromise.listen\<close>;
  \<^item> \<open>TimeoutAbortCb s\<close>: \<open>() => { clearTimeout(this._timer); this._timer = undefined;
    this._timeout = undefined }\<close> of \<open>AbortSignalPlus.timeout\<close>;
  \<^item> \<open>ForwardCb s sg\<close>: \<open>() => { this._controller.abort(isTimeoutError(signal.reason) ?
    new TimeoutError() : signal.reason) }\<close> of \<open>AbortSignalPlus._listen\<close>;
  \<^item> \<open>UserCb k\<close>: a listener of the caller, which does not touch the library's objects.
\<close>

datatype listener =
    ListenCb nat sigref
  | TimeoutAbortCb nat
  | ForwardCb nat sigref
  | UserCb nat

text \<open>
  A native \<open>AbortController\<close> with its \<open>AbortSignal\<close>. \<open>fired\<close> and \<open>freason\<close> are the
  signal's internal abort flag and abort reason, which the prototype's \<open>aborted\<close> and
  \<open>reason\<close> getters read. \<open>own_aborted\<close> and \<open>own_reason\<close> are own data properties of
  these names on the signal object, absent until \<open>Object.defineProperty\<close> creates them;
  an own property shadows the getter. Each listener carries its \<open>once\<close> option.
\<close>

record nsig =
  fired :: bool
  freason :: jsval
  own_aborted :: "bool option"
  own_reason :: "jsval option"
  listeners :: "(listener \<times> bool) list"

text \<open>
  An \<open>AbortControllerPlus\<close> together with the \<open>AbortSignalPlus\<close> its constructor creates
  for it. \<open>nsignal\<close> is the native controller and signal both wrap (\<open>_controller\<close>,
  \<open>_signal\<close>), \<open>timer\<close> is \<open>_timer\<close> and \<open>timeout_val\<close> is \<open>_timeout\<close>.
\<close>

record plus =
  nsignal :: nat
  timer :: "nat option"
  timeout_val :: "nat option"

text \<open>
  The state of the promise an \<open>AbortablePromise\<close> extends. \<open>Locked k\<close>: resolved with the
  thenable \<open>k\<close> and waiting for it, so that no later \<open>resolve\<close> or \<open>reject\<close> takes effect.
\<close>

datatype pstate = Pending | Locked nat | Fulfilled jsval | Rejected jsval

text \<open>
  An \<open>AbortablePromise\<close>: \<open>_parent\<close>, \<open>_isSettled\<close>, \<open>_signal\<close>, and the promise state that
  the captured \<open>_reject\<close> acts on.
\<close>

record node =
  parent :: nat
  isSettled :: bool
  signal :: "sigref option"
  underlying :: pstate

text \<open>
  The store. Objects are named by their index in the list of their kind. \<open>timers\<close> holds
  the armed timers of the host as (handle, time due, the signal whose \<open>timeout\<close> armed it).
  \<open>rejectLog\<close> and \<open>abortLog\<close> record, in order, every call of a node's captured reject
  function and every call of \<open>AbortControllerPlus.abort\<close>, with the argument passed.
\<close>

record state =
  nodes :: "node list"
  sigs :: "nsig list"
  pluses :: "plus list"
  timers :: "(nat \<times> nat \<times> nat) list"
  next_timer :: nat
  next_obj :: nat
  now :: nat
  rejectLog :: "(nat \<times> jsval) list"
  abortLog :: "(nat \<times> jsval) list"

definition init :: state where
  "init = \<lparr>nodes = [], sigs = [], pluses = [], timers = [], next_timer = 0, next_obj = 0,
           now = 0, rejectLog = [], abortLog = []\<rparr>"

section \<open>Errors\<close>

text \<open>\<open>new TimeoutError()\<close> and \<open>new AbortError()\<close> with their default messages.\<close>

definition new_TimeoutError :: "state \<Rightarrow> jsval \<times> state" where
  "new_TimeoutError st =
     (DomEx (next_obj st) ''TimeoutError'' ''The operation was aborted due to timeout'',
      st\<lparr>next_obj := next_obj st + 1\<rparr>)"

definition new_AbortError :: "state \<Rightarrow> jsval \<times> state" where
  "new_AbortError st =
     (DomEx (next_obj st) ''AbortError'' ''This operation was aborted'',
      st\<lparr>next_obj := next_obj st + 1\<rparr>)"

text \<open>\<open>reason ?? new AbortError()\<close>.\<close>

definition default_reason :: "state \<Rightarrow> jsval \<Rightarrow> jsval \<times> state" where
  "default_reason st reason = (if nullish reason then new_AbortError st else (reason, st))"

text \<open>\<open>isTimeoutError(r) ? new TimeoutError() : r\<close>, the argument built in \<open>_listen\<close>.\<close>

definition translate :: "state \<Rightarrow> jsval \<Rightarrow> jsval \<times> state" where
  "translate st r = (if isTimeoutError r then new_TimeoutError st else (r, st))"

section \<open>Native signals\<close>

definition sig_native :: "state \<Rightarrow> sigref \<Rightarrow> nat" where
  "sig_native st sg = (case sg of Plus s \<Rightarrow> nsignal (pluses st ! s) | Native n \<Rightarrow> n)"

text \<open>
  \<open>signal.aborted\<close> and \<open>signal.reason\<close>. An \<open>AbortSignalPlus\<close> forwards both to its
  native signal.
\<close>

definition sig_aborted :: "state \<Rightarrow> sigref \<Rightarrow> bool" where
  "sig_aborted st sg =
     (let x = sigs st ! sig_native st sg
      in case own_aborted x of Some b \<Rightarrow> b | None \<Rightarrow> fired x)"

definition sig_reason :: "state \<Rightarrow> sigref \<Rightarrow> jsval" where
  "sig_reason st sg =
     (let x = sigs st ! sig_native st sg
      in case own_reason x of Some r \<Rightarrow> r | None \<Rightarrow> freason x)"

definition addEventListener :: "state \<Rightarrow> sigref \<Rightarrow> listener \<Rightarrow> bool \<Rightarrow> state" where
  "addEventListener st sg l once =
     (let n = sig_native st sg; x = sigs st ! n
      in st\<lparr>sigs := (sigs st)[n := x\<lparr>listeners := listeners x @ [(l, once)]\<rparr>]\<rparr>)"

text \<open>
  What is still to run of the current synchronous call: a listener to call, or the two
  assignments the timer callback makes after its \<open>abort\<close> call returns.
\<close>

datatype task = Call listener | ClearTimerFields nat

text \<open>
  Dispatching the \<open>abort\<close> event at a native signal: the listeners registered at this
  moment are called in order, and those registered with \<open>once\<close> are removed.
\<close>

definition dispatchEvent :: "state \<Rightarrow> nat \<Rightarrow> task list \<times> state" where
  "dispatchEvent st n =
     (let x = sigs st ! n
      in (map (\<lambda>(l, once). Call l) (listeners x),
          st\<lparr>sigs := (sigs st)[n := x\<lparr>listeners := filter (\<lambda>(l, once). \<not> once) (listeners x)\<rparr>]\<rparr>))"

text \<open>
  The host's "signal abort" on a native controller with a given reason: nothing when the
  signal has fired before; otherwise the reason is stored, the flag set and the event
  dispatched. A reference to no allocated signal does nothing.
\<close>

definition signal_abort :: "state \<Rightarrow> nat \<Rightarrow> jsval \<Rightarrow> task list \<times> state" where
  "signal_abort st n r =
     (if n < length (sigs st) \<and> \<not> fired (sigs st ! n)
      then dispatchEvent (st\<lparr>sigs := (sigs st)[n := (sigs st ! n)\<lparr>fired := True, freason := r\<rparr>]\<rparr>) n
      else ([], st))"

text \<open>\<open>AbortControllerPlus.abort\<close>, up to the dispatch of the listeners.\<close>

definition controller_abort_step :: "state \<Rightarrow> nat \<Rightarrow> jsval \<Rightarrow> task list \<times> state" where
  "controller_abort_step st s reason =
     (let (r, st1) = default_reason (st\<lparr>abortLog := abortLog st @ [(s, reason)]\<rparr>) reason
      in signal_abort st1 (nsignal (pluses st1 ! s)) r)"

section \<open>Timers of the host\<close>

definition clearTimeout :: "state \<Rightarrow> nat option \<Rightarrow> state" where
  "clearTimeout st t =
     (case t of None \<Rightarrow> st
      | Some h \<Rightarrow> st\<lparr>timers := filter (\<lambda>(h', due, s). h' \<noteq> h) (timers st)\<rparr>)"

definition clear_timer_fields :: "state \<Rightarrow> nat \<Rightarrow> state" where
  "clear_timer_fields st s =
     st\<lparr>pluses := (pluses st)[s := (pluses st ! s)\<lparr>timer := None, timeout_val := None\<rparr>]\<rparr>"

section \<open>The chain-walk\<close>

text \<open>The promise's own \<open>reject\<close> and \<open>resolve\<close>: the first settlement wins.\<close>

definition raw_reject :: "state \<Rightarrow> nat \<Rightarrow> jsval \<Rightarrow> state" where
  "raw_reject st p r =
     (let nd = nodes st ! p
      in st\<lparr>nodes := (nodes st)[p := nd\<lparr>underlying :=
                (if underlying nd = Pending then Rejected r else underlying nd)\<rparr>],
            rejectLog := rejectLog st @ [(p, r)]\<rparr>)"

definition raw_resolve :: "state \<Rightarrow> nat \<Rightarrow> jsval \<Rightarrow> state" where
  "raw_resolve st p v =
     (let nd = nodes st ! p
      in st\<lparr>nodes := (nodes st)[p := nd\<lparr>underlying :=
                (if underlying nd = Pending
                 then (case v of Thenable k \<Rightarrow> Locked k | _ \<Rightarrow> Fulfilled v)
                 else underlying nd)\<rparr>]\<rparr>)"

text \<open>
  The loop of \<open>_doAbort\<close>, over the \<open>_parent\<close> and \<open>_isSettled\<close> fields. It has no bound
  in the source, so it is a partial function: \<open>None\<close> is the loop that never ends.
\<close>

partial_function (option) walk :: "(nat \<Rightarrow> nat) \<Rightarrow> (nat \<Rightarrow> bool) \<Rightarrow> nat \<Rightarrow> nat option" where
  "walk par settled source =
     (if source = par source then Some source
      else if settled (par source) then Some source
      else walk par settled (par source))"

declare walk.simps [code]

definition parent_of :: "state \<Rightarrow> nat \<Rightarrow> nat" where
  "parent_of st i = parent (nodes st ! i)"

definition settled_of :: "state \<Rightarrow> nat \<Rightarrow> bool" where
  "settled_of st i = isSettled (nodes st ! i)"

definition doAbort :: "state \<Rightarrow> nat \<Rightarrow> jsval \<Rightarrow> state option" where
  "doAbort st p reason =
     (case walk (parent_of st) (settled_of st) p of
        None \<Rightarrow> None
      | Some source \<Rightarrow> Some (raw_reject st source reason))"

section \<open>Running listeners\<close>

fun exec :: "task \<Rightarrow> state \<Rightarrow> (task list \<times> state) option" where
  "exec (Call (ListenCb p sg)) st =
     (case doAbort st p (sig_reason st sg) of None \<Rightarrow> None | Some st1 \<Rightarrow> Some ([], st1))"
| "exec (Call (TimeoutAbortCb s)) st =
     Some ([], clear_timer_fields (clearTimeout st (timer (pluses st ! s))) s)"
| "exec (Call (ForwardCb s sg)) st =
     (let (r, st1) = translate st (sig_reason st sg) in Some (controller_abort_step st1 s r))"
| "exec (Call (UserCb k)) st = Some ([], st)"
| "exec (ClearTimerFields s) st = Some ([], clear_timer_fields st s)"

definition unfired :: "state \<Rightarrow> nat" where
  "unfired st = length (filter (\<lambda>x. \<not> fired x) (sigs st))"

function run :: "task list \<Rightarrow> state \<Rightarrow> state option" where
  "run [] st = Some st"
| "run (t # ts) st =
     (case exec t st of None \<Rightarrow> None | Some (new, st1) \<Rightarrow> run (new @ ts) st1)"
  by pat_completeness auto


text \<open>
  \<open>AbortControllerPlus.abort\<close>, the host's \<open>AbortController.abort\<close> (which builds its own
  DOMException when no reason is given), and a timer of the host coming due: the timer
  leaves the table and the callback that \<open>timeout\<close> passed to \<open>setTimeout\<close> runs.
\<close>

definition controller_abort :: "state \<Rightarrow> nat \<Rightarrow> jsval \<Rightarrow> state option" where
  "controller_abort st s reason =
     (let (ts, st1) = controller_abort_step st s reason in run ts st1)"

definition native_abort :: "state \<Rightarrow> nat \<Rightarrow> jsval \<Rightarrow> state option" where
  "native_abort st n reason =
     (let (r, st1) = (if reason = Undefined
                      then (DomEx (next_obj st) ''AbortError'' ''signal is aborted without reason'',
                            st\<lparr>next_obj := next_obj st + 1\<rparr>)
                      else (reason, st));
          (ts, st2) = signal_abort st1 n r
      in run ts st2)"

definition fire_timer :: "state \<Rightarrow> nat \<Rightarrow> state option" where
  "fire_timer st h =
     (case filter (\<lambda>(h', due, s). h' = h) (timers st) of
        [] \<Rightarrow> Some st
      | (h', due, s) # _ \<Rightarrow>
          (let st1 = st\<lparr>timers := filter (\<lambda>(h', due, s). h' \<noteq> h) (timers st),
                        now := max (now st) due\<rparr>;
               (e, st2) = new_TimeoutError st1;
               (ts, st3) = controller_abort_step st2 s e
           in run (ts @ [ClearTimerFields s]) st3))"

section \<open>AbortSignalPlus\<close>

text \<open>
  \<open>AbortSignalPlus._createController(controller).signal\<close>: the argument is absent, a native
  controller, or an \<open>AbortControllerPlus\<close>, whose own signal is then returned.
\<close>

datatype ctrl_arg = NoController | NativeController nat | PlusController nat

definition createController :: "state \<Rightarrow> ctrl_arg \<Rightarrow> state \<times> nat" where
  "createController st c =
     (case c of
        NoController \<Rightarrow>
          (st\<lparr>sigs := sigs st @ [\<lparr>fired = False, freason = Undefined, own_aborted = None,
                                    own_reason = None, listeners = []\<rparr>],
              pluses := pluses st @ [\<lparr>nsignal = length (sigs st), timer = None, timeout_val = None\<rparr>]\<rparr>,
           length (pluses st))
      | NativeController n \<Rightarrow>
          (st\<lparr>pluses := pluses st @ [\<lparr>nsignal = n, timer = None, timeout_val = None\<rparr>]\<rparr>,
           length (pluses st))
      | PlusController s \<Rightarrow> (st, s))"

definition timeout :: "state \<Rightarrow> nat \<Rightarrow> nat \<Rightarrow> state \<times> nat" where
  "timeout st s milliseconds =
     (let st1 = clearTimeout st (timer (pluses st ! s));
          h = next_timer st1;
          st2 = st1\<lparr>timers := timers st1 @ [(h, now st1 + milliseconds, s)],
                    next_timer := h + 1,
                    pluses := (pluses st1)[s := (pluses st1 ! s)\<lparr>timer := Some h,
                                                 timeout_val := Some milliseconds\<rparr>]\<rparr>
      in (addEventListener st2 (Plus s) (TimeoutAbortCb s) True, s))"

definition hasTimeout :: "state \<Rightarrow> nat \<Rightarrow> bool" where
  "hasTimeout st s = (timer (pluses st ! s) \<noteq> None)"

definition timeout_static :: "state \<Rightarrow> nat \<Rightarrow> ctrl_arg \<Rightarrow> state \<times> nat" where
  "timeout_static st milliseconds c = (let (st1, s) = createController st c in timeout st1 s milliseconds)"

text \<open>\<open>_listen\<close> returns whether the source was found aborted.\<close>

definition listen_signal :: "state \<Rightarrow> nat \<Rightarrow> sigref \<Rightarrow> (state \<times> bool) option" where
  "listen_signal st s sg =
     (if sig_aborted st sg
      then (let (r, st1) = translate st (sig_reason st sg)
            in case controller_abort st1 s r of None \<Rightarrow> None | Some st2 \<Rightarrow> Some (st2, True))
      else Some (addEventListener st sg (ForwardCb s sg) True, False))"

definition one :: "state \<Rightarrow> nat \<Rightarrow> sigref \<Rightarrow> (state \<times> nat) option" where
  "one st s sg = (case listen_signal st s sg of None \<Rightarrow> None | Some (st1, b) \<Rightarrow> Some (st1, s))"

definition one_static :: "state \<Rightarrow> sigref \<Rightarrow> ctrl_arg \<Rightarrow> (state \<times> nat) option" where
  "one_static st sg c = (let (st1, s) = createController st c in one st1 s sg)"

fun any_signal :: "state \<Rightarrow> nat \<Rightarrow> sigref list \<Rightarrow> (state \<times> nat) option" where
  "any_signal st s [] = Some (st, s)"
| "any_signal st s (sg # signals) =
     (case listen_signal st s sg of
        None \<Rightarrow> None
      | Some (st1, b) \<Rightarrow> if b then Some (st1, s) else any_signal st1 s signals)"

definition any_static :: "state \<Rightarrow> sigref list \<Rightarrow> ctrl_arg \<Rightarrow> (state \<times> nat) option" where
  "any_static st signals c = (let (st1, s) = createController st c in any_signal st1 s signals)"

text \<open>\<open>AbortSignalPlus.from\<close>.\<close>

definition signal_from :: "state \<Rightarrow> sigref \<Rightarrow> (state \<times> nat) option" where
  "signal_from st sg =
     (case sg of Plus s \<Rightarrow> Some (st, s) | Native n \<Rightarrow> one_static st (Native n) NoController)"

section \<open>AbortablePromise\<close>

text \<open>\<open>listen\<close> (it returns \<open>this\<close>; the state is what it changes).\<close>

definition listen :: "state \<Rightarrow> nat \<Rightarrow> sigref \<Rightarrow> state option" where
  "listen st p sg =
     (let st1 = st\<lparr>nodes := (nodes st)[p := (nodes st ! p)\<lparr>signal := Some sg\<rparr>]\<rparr>
      in if sig_aborted st1 sg then doAbort st1 p (sig_reason st1 sg)
         else Some (addEventListener st1 sg (ListenCb p sg) True))"

text \<open>
  The two functions the constructor hands to the executor: each calls the promise's own
  function and then sets \<open>_isSettled\<close>.
\<close>

definition resolve_cap :: "state \<Rightarrow> nat \<Rightarrow> jsval \<Rightarrow> state" where
  "resolve_cap st p v =
     (let st1 = raw_resolve st p v
      in st1\<lparr>nodes := (nodes st1)[p := (nodes st1 ! p)\<lparr>isSettled := True\<rparr>]\<rparr>)"

definition reject_cap :: "state \<Rightarrow> nat \<Rightarrow> jsval \<Rightarrow> state" where
  "reject_cap st p r =
     (let st1 = raw_reject st p r
      in st1\<lparr>nodes := (nodes st1)[p := (nodes st1 ! p)\<lparr>isSettled := True\<rparr>]\<rparr>)"

text \<open>
  An executor is given by the calls it makes, while it runs inside the constructor, to the
  two functions it receives. Calls it makes later are \<open>resolve_cap\<close> and \<open>reject_cap\<close> on
  the later state.
\<close>

datatype exec_call = CallResolve jsval | CallReject jsval

fun run_executor :: "state \<Rightarrow> nat \<Rightarrow> exec_call list \<Rightarrow> state" where
  "run_executor st p [] = st"
| "run_executor st p (CallResolve v # cs) = run_executor (resolve_cap st p v) p cs"
| "run_executor st p (CallReject r # cs) = run_executor (reject_cap st p r) p cs"

definition construct :: "state \<Rightarrow> exec_call list \<Rightarrow> sigref option \<Rightarrow> (state \<times> nat) option" where
  "construct st executor sg =
     (let p = length (nodes st);
          st1 = st\<lparr>nodes := nodes st @ [\<lparr>parent = p, isSettled = False, signal = None,
                                         underlying = Pending\<rparr>]\<rparr>
      in case (case sg of None \<Rightarrow> Some st1 | Some s \<Rightarrow> listen st1 p s) of
           None \<Rightarrow> None
         | Some st2 \<Rightarrow> Some (run_executor st2 p executor, p))"

text \<open>
  \<open>from\<close>: the argument is an \<open>AbortablePromise\<close> or another promise. The executor built
  for another promise only subscribes to it, so it calls nothing while it runs.
\<close>

datatype promise_arg = Abortable nat | Foreign

definition from_promise :: "state \<Rightarrow> promise_arg \<Rightarrow> sigref option \<Rightarrow> (state \<times> nat) option" where
  "from_promise st promise sg =
     (case promise of Abortable p \<Rightarrow> Some (st, p) | Foreign \<Rightarrow> construct st [] sg)"

text \<open>
  \<open>then\<close>, \<open>catch\<close> and \<open>finally\<close>: the promise primitive builds the new promise with the
  class's constructor, without a signal and with an executor that only stores the two
  functions; the method then sets \<open>_parent\<close>.
\<close>

definition then_promise :: "state \<Rightarrow> nat \<Rightarrow> (state \<times> nat) option" where
  "then_promise st this =
     (case construct st [] None of
        None \<Rightarrow> None
      | Some (st1, newPromise) \<Rightarrow>
          Some (st1\<lparr>nodes := (nodes st1)[newPromise := (nodes st1 ! newPromise)\<lparr>parent := this\<rparr>]\<rparr>,
                newPromise))"

definition catch_promise :: "state \<Rightarrow> nat \<Rightarrow> (state \<times> nat) option" where
  "catch_promise st this = then_promise st this"

definition finally_promise :: "state \<Rightarrow> nat \<Rightarrow> (state \<times> nat) option" where
  "finally_promise st this = then_promise st this"

text \<open>
  \<open>Object.defineProperty(o, name, {value: v})\<close> on a property that is absent creates it
  non-writable and non-configurable; on such a property it succeeds only when the value
  is the same, and throws a TypeError otherwise.
\<close>

datatype error = TypeError

definition defineProperty :: "'a option \<Rightarrow> 'a \<Rightarrow> error + 'a option" where
  "defineProperty cur v =
     (case cur of None \<Rightarrow> Inr (Some v) | Some c \<Rightarrow> if c = v then Inr (Some c) else Inl TypeError)"

text \<open>A call returns, or throws with the store as it is at that point.\<close>

datatype outcome = Returned state | Thrown error state

definition abort :: "state \<Rightarrow> nat \<Rightarrow> jsval \<Rightarrow> outcome option" where
  "abort st this reason0 =
     (let (reason, st0) = default_reason st reason0
      in case doAbort st0 this reason of
           None \<Rightarrow> None
         | Some st1 \<Rightarrow>
             (case signal (nodes st1 ! this) of
                None \<Rightarrow> Some (Returned st1)
              | Some (Plus s) \<Rightarrow>
                  (case controller_abort st1 s reason of
                     None \<Rightarrow> None | Some st2 \<Rightarrow> Some (Returned st2))
              | Some (Native n) \<Rightarrow>
                  (case defineProperty (own_aborted (sigs st1 ! n)) True of
                     Inl e \<Rightarrow> Some (Thrown e st1)
                   | Inr a \<Rightarrow>
                       (let st2 = st1\<lparr>sigs := (sigs st1)[n := (sigs st1 ! n)\<lparr>own_aborted := a\<rparr>]\<rparr>
                        in case defineProperty (own_reason (sigs st2 ! n)) reason of
                             Inl e \<Rightarrow> Some (Thrown e st2)
                           | Inr b \<Rightarrow>
                               (let st3 = st2\<lparr>sigs := (sigs st2)[n := (sigs st2 ! n)\<lparr>own_reason := b\<rparr>]\<rparr>;
                                    (ts, st4) = dispatchEvent st3 n
                                in case run ts st4 of
                                     None \<Rightarrow> None | Some st5 \<Rightarrow> Some (Returned st5))))))"

section \<open>Predicates used in the statements\<close>

text \<open>
  The exit test of the loop of \<open>_doAbort\<close> at the node \<open>x\<close>: \<open>source === source._parent\<close>,
  or \<open>source._parent._isSettled\<close>.
\<close>

definition stops :: "state \<Rightarrow> nat \<Rightarrow> bool" where
  "stops st x = (x = parent_of st x \<or> settled_of st (parent_of st x))"

text \<open>
  Every node's parent is the node itself or an older node. The constructor makes a node
  its own parent, and \<open>then\<close>, \<open>catch\<close> and \<open>finally\<close> give the node they create a parent
  that exists already.
\<close>

definition chain_ok :: "state \<Rightarrow> bool" where
  "chain_ok st = (\<forall>i < length (nodes st). parent_of st i \<le> i)"

text \<open>The listeners that \<open>listen\<close> registered name nodes of the store.\<close>

definition task_ok :: "state \<Rightarrow> task \<Rightarrow> bool" where
  "task_ok st t = (case t of Call (ListenCb p sg) \<Rightarrow> p < length (nodes st) | _ \<Rightarrow> True)"

definition listeners_ok :: "state \<Rightarrow> bool" where
  "listeners_ok st = (\<forall>x \<in> set (sigs st). \<forall>(l, once) \<in> set (listeners x). task_ok st (Call l))"

text \<open>
  An own \<open>aborted\<close> property, where there is one, is \<open>true\<close> and comes with an own
  \<open>reason\<close>: \<open>abort\<close> is the only code that defines them.
\<close>

definition props_ok :: "state \<Rightarrow> bool" where
  "props_ok st =
     (\<forall>x \<in> set (sigs st). own_aborted x \<noteq> Some False \<and>
                          (own_aborted x = None \<longrightarrow> own_reason x = None))"

text \<open>Every \<open>AbortSignalPlus\<close> wraps a native signal of the store.\<close>

definition pluses_ok :: "state \<Rightarrow> bool" where
  "pluses_ok st = (\<forall>x \<in> set (pluses st). nsignal x < length (sigs st))"

definition wf_state :: "state \<Rightarrow> bool" where
  "wf_state st = (chain_ok st \<and> listeners_ok st \<and> props_ok st \<and> pluses_ok st)"

text \<open>A reference to a signal of the store.\<close>

definition sig_ok :: "state \<Rightarrow> sigref \<Rightarrow> bool" where
  "sig_ok st sg = (case sg of Plus s \<Rightarrow> s < length (pluses st) | Native n \<Rightarrow> n < length (sigs st))"

text \<open>
  Every armed timer has a handle that was given out, no two share a handle, and each is
  the timer its signal's \<open>_timer\<close> field names.
\<close>

definition timers_ok :: "state \<Rightarrow> bool" where
  "timers_ok st =
     (distinct (map fst (timers st)) \<and>
      (\<forall>(h, due, s) \<in> set (timers st). h < next_timer st \<and> timer (pluses st ! s) = Some h))"

text \<open>The armed timers of the signal \<open>s\<close>.\<close>

definition timers_of :: "state \<Rightarrow> nat \<Rightarrow> (nat \<times> nat \<times> nat) list" where
  "timers_of st s = filter (\<lambda>(h, due, s'). s' = s) (timers st)"

text \<open>
  What running listeners leaves alone: the nodes' links, flags and bindings and every
  outcome already settled; the own properties of the signals, the fired signals and
  their reasons, with no listener added; the logs, which only grow, and the timers,
  which are only cleared.
\<close>

definition nodes_rel :: "state \<Rightarrow> state \<Rightarrow> bool" where
  "nodes_rel a b =
     (length (nodes b) = length (nodes a) \<and> parent_of b = parent_of a \<and>
      settled_of b = settled_of a \<and>
      (\<forall>i. signal (nodes b ! i) = signal (nodes a ! i)) \<and>
      (\<forall>i. underlying (nodes a ! i) \<noteq> Pending \<longrightarrow>
           underlying (nodes b ! i) = underlying (nodes a ! i)))"

definition sigs_rel :: "state \<Rightarrow> state \<Rightarrow> bool" where
  "sigs_rel a b =
     (length (sigs b) = length (sigs a) \<and>
      (\<forall>n. own_aborted (sigs b ! n) = own_aborted (sigs a ! n) \<and>
           own_reason (sigs b ! n) = own_reason (sigs a ! n)) \<and>
      (\<forall>n. fired (sigs a ! n) \<longrightarrow>
           fired (sigs b ! n) \<and> freason (sigs b ! n) = freason (sigs a ! n)) \<and>
      (\<forall>n. \<exists>P. listeners (sigs b ! n) = filter P (listeners (sigs a ! n))) \<and>
      length (pluses b) = length (pluses a) \<and>
      (\<forall>s. nsignal (pluses b ! s) = nsignal (pluses a ! s)))"

definition logs_rel :: "state \<Rightarrow> state \<Rightarrow> bool" where
  "logs_rel a b =
     ((\<exists>e. rejectLog b = rejectLog a @ e) \<and> (\<exists>e. abortLog b = abortLog a @ e) \<and>
      (\<exists>P. timers b = filter P (timers a)) \<and> next_timer b = next_timer a \<and>
      next_obj a \<le> next_obj b \<and> now b = now a)"

definition timer_rel :: "state \<Rightarrow> state \<Rightarrow> bool" where
  "timer_rel a b =
     (\<forall>s. timer (pluses b ! s) = timer (pluses a ! s) \<or> timer (pluses b ! s) = None)"

text \<open>
  The reason a signal reports can change no more: the signal has fired, or it has an own
  \<open>reason\<close> property.
\<close>

definition reason_fixed :: "state \<Rightarrow> sigref \<Rightarrow> bool" where
  "reason_fixed st sg =
     (let x = sigs st ! sig_native st sg in own_reason x \<noteq> None \<or> fired x)"

definition evolves :: "state \<Rightarrow> state \<Rightarrow> bool" where
  "evolves a b = (nodes_rel a b \<and> sigs_rel a b \<and> logs_rel a b \<and> timer_rel a b)"

text \<open>What the two functions handed to an executor leave alone.\<close>

definition cap_rel :: "state \<Rightarrow> state \<Rightarrow> bool" where
  "cap_rel a b =
     (length (nodes b) = length (nodes a) \<and> parent_of b = parent_of a \<and>
      (\<forall>i. signal (nodes b ! i) = signal (nodes a ! i)) \<and>
      (\<forall>i. underlying (nodes a ! i) \<noteq> Pending \<longrightarrow>
           underlying (nodes b ! i) = underlying (nodes a ! i)) \<and>
      (\<forall>i. isSettled (nodes a ! i) \<longrightarrow> isSettled (nodes b ! i)) \<and>
      sigs b = sigs a \<and> pluses b = pluses a \<and> timers b = timers a \<and>
      next_timer b = next_timer a \<and> abortLog b = abortLog a \<and>
      (\<exists>e. rejectLog b = rejectLog a @ e))"

text \<open>
  The reason the host's \<open>abort\<close> stores, and the store after it has built that reason.
\<close>

definition native_reason :: "state \<Rightarrow> jsval \<Rightarrow> jsval" where
  "native_reason st r =
     (if r = Undefined then DomEx (next_obj st) ''AbortError'' ''signal is aborted without reason''
      else r)"

definition native_alloc :: "state \<Rightarrow> jsval \<Rightarrow> state" where
  "native_alloc st r = (if r = Undefined then st\<lparr>next_obj := next_obj st + 1\<rparr> else st)"

text \<open>
  The store when the constructor, given a signal, has set up the new node and \<open>listen\<close>
  has stored the signal in it.
\<close>

definition fresh_node :: "state \<Rightarrow> sigref \<Rightarrow> state" where
  "fresh_node st sg =
     st\<lparr>nodes := nodes st @ [\<lparr>parent = length (nodes st), isSettled = False, signal = Some sg,
                                underlying = Pending\<rparr>]\<rparr>"

text \<open>The first statement of \<open>listen\<close>: \<open>this._signal = signal\<close>.\<close>

definition bind_signal :: "state \<Rightarrow> nat \<Rightarrow> sigref \<Rightarrow> state" where
  "bind_signal st p sg = st\<lparr>nodes := (nodes st)[p := (nodes st ! p)\<lparr>signal := Some sg\<rparr>]\<rparr>"

text \<open>
  The objects \<open>new TimeoutError()\<close> and \<open>new AbortError()\<close> build when \<open>i\<close> objects have
  been built before.
\<close>

definition timeout_error :: "nat \<Rightarrow> jsval" where
  "timeout_error i = DomEx i ''TimeoutError'' ''The operation was aborted due to timeout''"

definition abort_error :: "nat \<Rightarrow> jsval" where
  "abort_error i = DomEx i ''AbortError'' ''This operation was aborted''"

text \<open>
  The store after the signal \<open>s\<close> has registered its listener of \<open>_listen\<close>, with \<open>once\<close>, on
  each of the given sources, one after the other.
\<close>

definition registered :: "state \<Rightarrow> nat \<Rightarrow> sigref list \<Rightarrow> state" where
  "registered st s sources = foldl (\<lambda>st sg. addEventListener st sg (ForwardCb s sg) True) st sources"

text \<open>The store an outcome carries.\<close>

definition outcome_state :: "outcome \<Rightarrow> state" where
  "outcome_state out = (case out of Returned st \<Rightarrow> st | Thrown e st \<Rightarrow> st)"

text \<open>
  Every signal with its \<open>_timer\<close> field set has the listener that clears it waiting: on its
  native signal, where \<open>timeout\<close> registered it with \<open>once\<close>, or among the tasks of the
  current call that are still to run.
\<close>

definition pending_ok :: "task list \<Rightarrow> state \<Rightarrow> bool" where
  "pending_ok ts st =
     (\<forall>s < length (pluses st).
        timer (pluses st ! s) = None \<or> Call (TimeoutAbortCb s) \<in> set ts \<or>
        ClearTimerFields s \<in> set ts \<or>
        (TimeoutAbortCb s, True) \<in> set (listeners (sigs st ! nsignal (pluses st ! s))))"

definition armed_ok :: "state \<Rightarrow> bool" where
  "armed_ok st = pending_ok [] st"

text \<open>What holds of the timers between any two calls.\<close>

definition timers_inv :: "state \<Rightarrow> bool" where
  "timers_inv st = (wf_state st \<and> timers_ok st \<and> armed_ok st)"

text \<open>A node of the store whose bound signal, when it has one, is a signal of the store.\<close>

definition bound_ok :: "state \<Rightarrow> nat \<Rightarrow> bool" where
  "bound_ok st p =
     (p < length (nodes st) \<and>
      (case signal (nodes st ! p) of None \<Rightarrow> True | Some sg \<Rightarrow> sig_ok st sg))"

section \<open>Stores used as examples\<close>

text \<open>
  A pending promise constructed with the signal of a new \<open>AbortControllerPlus\<close>:
  \<open>new AbortablePromise(() => {}, new AbortControllerPlus().signal)\<close>.
\<close>

definition bound_node :: state where
  "bound_node =
     \<lparr>nodes = [\<lparr>parent = 0, isSettled = False, signal = Some (Plus 0), underlying = Pending\<rparr>],
      sigs = [\<lparr>fired = False, freason = Undefined, own_aborted = None, own_reason = None,
               listeners = [(ListenCb 0 (Plus 0), True)]\<rparr>],
      pluses = [\<lparr>nsignal = 0, timer = None, timeout_val = None\<rparr>],
      timers = [], next_timer = 0, next_obj = 0, now = 0, rejectLog = [], abortLog = []\<rparr>"

text \<open>
  The chain \<open>R\<close>, \<open>A = R.then(...)\<close>, \<open>B = A.then(...)\<close> in which the executor of \<open>R\<close> has
  resolved it and nothing has settled \<open>A\<close> or \<open>B\<close> yet.
\<close>

definition chain3 :: state where
  "chain3 =
     \<lparr>nodes = [\<lparr>parent = 0, isSettled = True, signal = None, underlying = Fulfilled (Num 1)\<rparr>,
               \<lparr>parent = 0, isSettled = False, signal = None, underlying = Pending\<rparr>,
               \<lparr>parent = 1, isSettled = False, signal = None, underlying = Pending\<rparr>],
      sigs = [], pluses = [], timers = [], next_timer = 0, next_obj = 0, now = 0,
      rejectLog = [], abortLog = []\<rparr>"

text \<open>A pending promise with no signal: \<open>new AbortablePromise(() => {})\<close>.\<close>

definition pending_root :: state where
  "pending_root =
     \<lparr>nodes = [\<lparr>parent = 0, isSettled = False, signal = None, underlying = Pending\<rparr>],
      sigs = [], pluses = [], timers = [], next_timer = 0, next_obj = 0, now = 0,
      rejectLog = [], abortLog = []\<rparr>"

text \<open>
  The signal of a new \<open>AbortControllerPlus\<close>, and the same after \<open>controller.abort(''X'')\<close>.
\<close>

definition fresh_signal :: state where
  "fresh_signal =
     \<lparr>nodes = [],
      sigs = [\<lparr>fired = False, freason = Undefined, own_aborted = None, own_reason = None,
               listeners = []\<rparr>],
      pluses = [\<lparr>nsignal = 0, timer = None, timeout_val = None\<rparr>],
      timers = [], next_timer = 0, next_obj = 0, now = 0, rejectLog = [], abortLog = []\<rparr>"

definition aborted_signal :: state where
  "aborted_signal =
     \<lparr>nodes = [],
      sigs = [\<lparr>fired = True, freason = Str ''X'', own_aborted = None, own_reason = None,
               listeners = []\<rparr>],
      pluses = [\<lparr>nsignal = 0, timer = None, timeout_val = None\<rparr>],
      timers = [], next_timer = 0, next_obj = 0, now = 0, rejectLog = [],
      abortLog = [(0, Str ''X'')]\<rparr>"

text \<open>A pending promise with no signal, and two controllers whose signals have not fired.\<close>

definition two_signals :: state where
  "two_signals =
     \<lparr>nodes = [\<lparr>parent = 0, isSettled = False, signal = None, underlying = Pending\<rparr>],
      sigs = [\<lparr>fired = False, freason = Undefined, own_aborted = None, own_reason = None,
               listeners = []\<rparr>,
              \<lparr>fired = False, freason = Undefined, own_aborted = None, own_reason = None,
               listeners = []\<rparr>],
      pluses = [\<lparr>nsignal = 0, timer = None, timeout_val = None\<rparr>,
                \<lparr>nsignal = 1, timer = None, timeout_val = None\<rparr>],
      timers = [], next_timer = 0, next_obj = 0, now = 0, rejectLog = [], abortLog = []\<rparr>"

text \<open>
  Two controllers; the signal of the second was given a timeout of 10 ms, which has come
  due. The signal of the first has not fired.
\<close>

definition timed_out_source :: state where
  "timed_out_source =
     \<lparr>nodes = [],
      sigs = [\<lparr>fired = False, freason = Undefined, own_aborted = None, own_reason = None,
               listeners = []\<rparr>,
              \<lparr>fired = True, freason = timeout_error 0, own_aborted = None, own_reason = None,
               listeners = []\<rparr>],
      pluses = [\<lparr>nsignal = 0, timer = None, timeout_val = None\<rparr>,
                \<lparr>nsignal = 1, timer = None, timeout_val = None\<rparr>],
      timers = [], next_timer = 1, next_obj = 1, now = 10, rejectLog = [],
      abortLog = [(1, timeout_error 0)]\<rparr>"

text \<open>Three controllers; the third has been aborted with \<open>''X''\<close>.\<close>

definition three_signals :: state where
  "three_signals =
     \<lparr>nodes = [],
      sigs = [\<lparr>fired = False, freason = Undefined, own_aborted = None, own_reason = None,
               listeners = []\<rparr>,
              \<lparr>fired = False, freason = Undefined, own_aborted = None, own_reason = None,
               listeners = []\<rparr>,
              \<lparr>fired = True, freason = Str ''X'', own_aborted = None, own_reason = None,
               listeners = []\<rparr>],
      pluses = [\<lparr>nsignal = 0, timer = None, timeout_val = None\<rparr>,
                \<lparr>nsignal = 1, timer = None, timeout_val = None\<rparr>,
                \<lparr>nsignal = 2, timer = None, timeout_val = None\<rparr>],
      timers = [], next_timer = 0, next_obj = 0, now = 0, rejectLog = [],
      abortLog = [(2, Str ''X'')]\<rparr>"

text \<open>
  \<open>new AbortablePromise(() => {}, signal)\<close> with the signal of an \<open>AbortControllerPlus\<close>
  after \<open>controller.abort(''X'')\<close>.
\<close>

definition bound_to_aborted :: state where
  "bound_to_aborted =
     \<lparr>nodes = [\<lparr>parent = 0, isSettled = False, signal = Some (Plus 0),
                 underlying = Rejected (Str ''X'')\<rparr>],
      sigs = [\<lparr>fired = True, freason = Str ''X'', own_aborted = None, own_reason = None,
               listeners = []\<rparr>],
      pluses = [\<lparr>nsignal = 0, timer = None, timeout_val = None\<rparr>],
      timers = [], next_timer = 0, next_obj = 0, now = 0, rejectLog = [(0, Str ''X'')],
      abortLog = [(0, Str ''X'')]\<rparr>"

text \<open>
  The signal of a \<open>new AbortController()\<close> of the host; \<open>new AbortablePromise(() => {}, signal)\<close>
  with that signal; and the same after \<open>abort(''a'')\<close> on that promise.
\<close>

definition native_signal :: state where
  "native_signal =
     \<lparr>nodes = [],
      sigs = [\<lparr>fired = False, freason = Undefined, own_aborted = None, own_reason = None,
               listeners = []\<rparr>],
      pluses = [], timers = [], next_timer = 0, next_obj = 0, now = 0, rejectLog = [],
      abortLog = []\<rparr>"

definition bound_native :: state where
  "bound_native =
     \<lparr>nodes = [\<lparr>parent = 0, isSettled = False, signal = Some (Native 0), underlying = Pending\<rparr>],
      sigs = [\<lparr>fired = False, freason = Undefined, own_aborted = None, own_reason = None,
               listeners = [(ListenCb 0 (Native 0), True)]\<rparr>],
      pluses = [], timers = [], next_timer = 0, next_obj = 0, now = 0, rejectLog = [],
      abortLog = []\<rparr>"

definition aborted_native :: state where
  "aborted_native =
     \<lparr>nodes = [\<lparr>parent = 0, isSettled = False, signal = Some (Native 0),
                 underlying = Rejected (Str ''a'')\<rparr>],
      sigs = [\<lparr>fired = False, freason = Undefined, own_aborted = Some True,
               own_reason = Some (Str ''a''), listeners = []\<rparr>],
      pluses = [], timers = [], next_timer = 0, next_obj = 0, now = 0,
      rejectLog = [(0, Str ''a''), (0, Str ''a'')], abortLog = []\<rparr>"

section \<open>Running the listeners always ends\<close>

text \<open>
  Every task either fires a signal that had not fired, or leaves the signals as they are
  and adds no task: the listeners of one synchronous call run to completion.
\<close>


lemma unfired_update_less:
  "n < length xs \<Longrightarrow> \<not> fired (xs ! n) \<Longrightarrow> fired v \<Longrightarrow>
   length (filter (\<lambda>x. \<not> fired x) (xs[n := v])) < length (filter (\<lambda>x. \<not> fired x) xs)"
proof (induction xs arbitrary: n)
  case Nil
  then show ?case by simp
next
  case (Cons a xs)
  show ?case
  proof (cases n)
    case 0
    with Cons.prems show ?thesis by simp
  next
    case (Suc m)
    with Cons.prems Cons.IH [of m] show ?thesis by simp
  qed
qed

lemma unfired_update_same:
  "fired v = fired (xs ! n) \<Longrightarrow>
   length (filter (\<lambda>x. \<not> fired x) (xs[n := v])) = length (filter (\<lambda>x. \<not> fired x) xs)"
proof (induction xs arbitrary: n)
  case Nil
  then show ?case by simp
next
  case (Cons a xs)
  then show ?case by (cases n) auto
qed

lemma sigs_raw_reject [simp]: "sigs (raw_reject st p r) = sigs st"
  by (simp add: raw_reject_def Let_def)

lemma sigs_doAbort: "doAbort st p r = Some st1 \<Longrightarrow> sigs st1 = sigs st"
  by (auto simp: doAbort_def split: option.splits)

lemma sigs_clearTimeout [simp]: "sigs (clearTimeout st t) = sigs st"
  by (simp add: clearTimeout_def split: option.splits)

lemma sigs_clear_timer_fields [simp]: "sigs (clear_timer_fields st s) = sigs st"
  by (simp add: clear_timer_fields_def)

lemma sigs_translate [simp]: "sigs (snd (translate st r)) = sigs st"
  by (simp add: translate_def new_TimeoutError_def)

lemma sigs_default_reason [simp]: "sigs (snd (default_reason st r)) = sigs st"
  by (simp add: default_reason_def new_AbortError_def)

lemma unfired_dispatchEvent [simp]: "unfired (snd (dispatchEvent st n)) = unfired st"
  by (simp add: dispatchEvent_def unfired_def Let_def unfired_update_same)

lemma signal_abort_unfired:
  "signal_abort st n r = (new, st1) \<Longrightarrow>
   unfired st1 < unfired st \<or> (unfired st1 = unfired st \<and> new = [])"
proof (cases "n < length (sigs st) \<and> \<not> fired (sigs st ! n)")
  case True
  assume a: "signal_abort st n r = (new, st1)"
  let ?st = "st\<lparr>sigs := (sigs st)[n := (sigs st ! n)\<lparr>fired := True, freason := r\<rparr>]\<rparr>"
  from a True have "st1 = snd (dispatchEvent ?st n)"
    by (simp add: signal_abort_def)
  then have "unfired st1 = unfired ?st" by simp
  moreover have "unfired ?st < unfired st"
    using True by (simp add: unfired_def unfired_update_less)
  ultimately show ?thesis by simp
next
  case False
  assume "signal_abort st n r = (new, st1)"
  with False show ?thesis by (auto simp: signal_abort_def)
qed

lemma controller_abort_step_unfired:
  "controller_abort_step st s r = (new, st1) \<Longrightarrow>
   unfired st1 < unfired st \<or> (unfired st1 = unfired st \<and> new = [])"
proof -
  assume a: "controller_abort_step st s r = (new, st1)"
  obtain r' st' where d: "default_reason (st\<lparr>abortLog := abortLog st @ [(s, r)]\<rparr>) r = (r', st')"
    by (cases "default_reason (st\<lparr>abortLog := abortLog st @ [(s, r)]\<rparr>) r")
  then have "sigs st' = sigs st"
    using sigs_default_reason [of "st\<lparr>abortLog := abortLog st @ [(s, r)]\<rparr>" r] by simp
  then have u: "unfired st' = unfired st" by (simp add: unfired_def)
  from a d have "signal_abort st' (nsignal (pluses st' ! s)) r' = (new, st1)"
    by (simp add: controller_abort_step_def)
  from signal_abort_unfired [OF this] u show ?thesis by simp
qed

lemma exec_unfired:
  "exec t st = Some (new, st1) \<Longrightarrow>
   unfired st1 < unfired st \<or> (unfired st1 = unfired st \<and> new = [])"
proof (cases t)
  case (Call l)
  assume a: "exec t st = Some (new, st1)"
  show ?thesis
  proof (cases l)
    case (ListenCb p sg)
    with a Call show ?thesis
      by (auto simp: unfired_def split: option.splits dest: sigs_doAbort)
  next
    case (TimeoutAbortCb s)
    with a Call show ?thesis by (auto simp: unfired_def)
  next
    case (ForwardCb s sg)
    obtain r st' where d: "translate st (sig_reason st sg) = (r, st')"
      by (cases "translate st (sig_reason st sg)")
    then have "sigs st' = sigs st"
      using sigs_translate [of st "sig_reason st sg"] by simp
    then have u: "unfired st' = unfired st" by (simp add: unfired_def)
    from a Call ForwardCb d have "controller_abort_step st' s r = (new, st1)" by simp
    from controller_abort_step_unfired [OF this] u show ?thesis by simp
  next
    case (UserCb k)
    with a Call show ?thesis by auto
  qed
next
  case (ClearTimerFields s)
  assume "exec t st = Some (new, st1)"
  with ClearTimerFields show ?thesis by (auto simp: unfired_def)
qed

termination run
proof (relation "measures [\<lambda>(ts, st). unfired st, \<lambda>(ts, st). length ts]")
  show "wf (measures [\<lambda>(ts, st). unfired st, \<lambda>(ts, st). length ts])" by simp
next
  fix t ts st x2 new st1
  assume "exec t st = Some x2" and "(new, st1) = x2"
  then have "exec t st = Some (new, st1)" by simp
  from exec_unfired [OF this]
  show "((new @ ts, st1), t # ts, st) \<in> measures [\<lambda>(ts, st). unfired st, \<lambda>(ts, st). length ts]"
    by auto
qed

section \<open>Facts about the relations\<close>

lemma nodes_rel_refl: "nodes_rel a a"
  by (simp add: nodes_rel_def)

lemma nodes_rel_trans: "nodes_rel a b \<Longrightarrow> nodes_rel b c \<Longrightarrow> nodes_rel a c"
  by (auto simp: nodes_rel_def)

lemma sigs_rel_refl: "sigs_rel a a"
  unfolding sigs_rel_def
proof (intro conjI allI impI)
  fix n show "\<exists>P. listeners (sigs a ! n) = filter P (listeners (sigs a ! n))"
    by (rule exI [of _ "\<lambda>x. True"]) simp
qed simp_all

lemma filter_filter_ex: "\<exists>P. ys = filter P xs \<Longrightarrow> \<exists>Q. zs = filter Q ys \<Longrightarrow> \<exists>R. zs = filter R xs"
proof -
  assume "\<exists>P. ys = filter P xs" "\<exists>Q. zs = filter Q ys"
  then obtain P Q where "ys = filter P xs" "zs = filter Q ys" by blast
  then have "zs = filter (\<lambda>x. P x \<and> Q x) xs" by (simp add: conj_commute)
  then show ?thesis by blast
qed

lemma sigs_rel_trans:
  assumes "sigs_rel a b" "sigs_rel b c"
  shows "sigs_rel a c"
  unfolding sigs_rel_def
proof (intro conjI allI impI)
  fix n
  from assms have "\<exists>P. listeners (sigs b ! n) = filter P (listeners (sigs a ! n))"
    "\<exists>Q. listeners (sigs c ! n) = filter Q (listeners (sigs b ! n))"
    by (simp_all add: sigs_rel_def)
  then show "\<exists>P. listeners (sigs c ! n) = filter P (listeners (sigs a ! n))"
    by (rule filter_filter_ex)
next
  fix n assume "fired (sigs a ! n)"
  with assms show "fired (sigs c ! n)" by (simp add: sigs_rel_def)
  from assms \<open>fired (sigs a ! n)\<close> show "freason (sigs c ! n) = freason (sigs a ! n)"
    by (simp add: sigs_rel_def)
qed (use assms in \<open>simp_all add: sigs_rel_def\<close>)

lemma logs_rel_refl: "logs_rel a a"
  unfolding logs_rel_def
proof (intro conjI)
  show "\<exists>P. timers a = filter P (timers a)" by (rule exI [of _ "\<lambda>x. True"]) simp
qed simp_all

lemma logs_rel_trans:
  assumes "logs_rel a b" "logs_rel b c"
  shows "logs_rel a c"
  unfolding logs_rel_def
proof (intro conjI)
  from assms show "\<exists>P. timers c = filter P (timers a)"
    unfolding logs_rel_def by (blast intro: filter_filter_ex)
  from assms obtain e1 e2 where "rejectLog b = rejectLog a @ e1" "rejectLog c = rejectLog b @ e2"
    unfolding logs_rel_def by blast
  then have "rejectLog c = rejectLog a @ (e1 @ e2)" by simp
  then show "\<exists>e. rejectLog c = rejectLog a @ e" by blast
  from assms obtain e1 e2 where "abortLog b = abortLog a @ e1" "abortLog c = abortLog b @ e2"
    unfolding logs_rel_def by blast
  then have "abortLog c = abortLog a @ (e1 @ e2)" by simp
  then show "\<exists>e. abortLog c = abortLog a @ e" by blast
qed (use assms in \<open>simp_all add: logs_rel_def\<close>)


section \<open>The chain-walk\<close>


text \<open>Where every parent is the node or an older node, the loop ends.\<close>

lemma walk_total:
  "\<forall>i<N. par i \<le> i \<Longrightarrow> n < N \<Longrightarrow> \<exists>t. walk par settled n = Some t \<and> t \<le> n"
proof (induction n rule: less_induct)
  case (less n)
  show ?case
  proof (cases "n = par n \<or> settled (par n)")
    case True
    then have "walk par settled n = Some n" by (subst walk.simps) auto
    then show ?thesis by simp
  next
    case False
    with less.prems have lt: "par n < n" by (metis le_neq_implies_less)
    with less.prems have "par n < N" by simp
    from less.IH [OF lt less.prems(1) this] obtain t where
      t: "walk par settled (par n) = Some t" "t \<le> par n" by blast
    from False have "walk par settled n = walk par settled (par n)"
      by (subst walk.simps) auto
    with t lt show ?thesis by simp
  qed
qed

lemma doAbort_total:
  assumes "chain_ok st" "p < length (nodes st)"
  shows "\<exists>t. walk (parent_of st) (settled_of st) p = Some t \<and> t \<le> p \<and>
             doAbort st p r = Some (raw_reject st t r)"
proof -
  from assms(1) have "\<forall>i<length (nodes st). parent_of st i \<le> i" by (simp add: chain_ok_def)
  from walk_total [OF this assms(2)] obtain t where
    "walk (parent_of st) (settled_of st) p = Some t" "t \<le> p" by blast
  then show ?thesis by (simp add: doAbort_def)
qed

section \<open>One task\<close>

lemma nth_list_update_field:
  assumes "g v = g (xs ! p)"
  shows "g (xs[p := v] ! i) = g (xs ! i)"
proof (cases "p < length xs")
  case True
  with assms show ?thesis by (cases "i = p") simp_all
next
  case False
  then show ?thesis by (simp add: list_update_beyond not_less)
qed

lemma nodes_rel_raw_reject: "nodes_rel st (raw_reject st p r)"
proof -
  let ?v = "(nodes st ! p)\<lparr>underlying :=
              (if underlying (nodes st ! p) = Pending then Rejected r else underlying (nodes st ! p))\<rparr>"
  have n: "nodes (raw_reject st p r) = (nodes st)[p := ?v]"
    by (simp add: raw_reject_def Let_def)
  have 1: "parent_of (raw_reject st p r) = parent_of st"
    by (rule ext) (simp add: parent_of_def n nth_list_update_field [where g = parent])
  have 2: "settled_of (raw_reject st p r) = settled_of st"
    by (rule ext) (simp add: settled_of_def n nth_list_update_field [where g = isSettled])
  have 3: "\<forall>i. signal (nodes (raw_reject st p r) ! i) = signal (nodes st ! i)"
    by (simp add: n nth_list_update_field [where g = signal])
  have 4: "\<forall>i. underlying (nodes st ! i) \<noteq> Pending \<longrightarrow>
             underlying (nodes (raw_reject st p r) ! i) = underlying (nodes st ! i)"
  proof (intro allI impI)
    fix i assume a: "underlying (nodes st ! i) \<noteq> Pending"
    show "underlying (nodes (raw_reject st p r) ! i) = underlying (nodes st ! i)"
    proof (cases "i = p \<and> p < length (nodes st)")
      case True
      with a show ?thesis by (simp add: n)
    next
      case False
      then show ?thesis
        by (cases "p < length (nodes st)") (auto simp: n list_update_beyond not_less)
    qed
  qed
  from 1 2 3 4 show ?thesis by (simp add: nodes_rel_def n)
qed

lemma nodes_rel_same: "nodes b = nodes a \<Longrightarrow> nodes_rel a b"
  by (simp add: nodes_rel_def parent_of_def settled_of_def fun_eq_iff)

lemma nodes_doAbort: "doAbort st p r = Some st1 \<Longrightarrow> nodes_rel st st1"
  by (auto simp: doAbort_def nodes_rel_raw_reject split: option.splits)

lemma nodes_signal_abort [simp]: "nodes (snd (signal_abort st n r)) = nodes st"
  by (simp add: signal_abort_def dispatchEvent_def Let_def)

lemma nodes_default_reason [simp]: "nodes (snd (default_reason st r)) = nodes st"
  by (simp add: default_reason_def new_AbortError_def)

lemma nodes_translate [simp]: "nodes (snd (translate st r)) = nodes st"
  by (simp add: translate_def new_TimeoutError_def)

lemma nodes_controller_abort_step [simp]: "nodes (snd (controller_abort_step st s r)) = nodes st"
  by (simp add: controller_abort_step_def split_beta)

lemma nodes_clearTimeout [simp]: "nodes (clearTimeout st t) = nodes st"
  by (simp add: clearTimeout_def split: option.splits)

lemma nodes_clear_timer_fields [simp]: "nodes (clear_timer_fields st s) = nodes st"
  by (simp add: clear_timer_fields_def)

lemma exec_nodes_rel: "exec t st = Some (new, st1) \<Longrightarrow> nodes_rel st st1"
proof (cases t)
  case (Call l)
  assume a: "exec t st = Some (new, st1)"
  show ?thesis
  proof (cases l)
    case (ListenCb p sg)
    with a Call show ?thesis by (auto split: option.splits dest: nodes_doAbort)
  next
    case (TimeoutAbortCb s)
    with a Call show ?thesis by (auto intro: nodes_rel_same)
  next
    case (ForwardCb s sg)
    with a Call have "st1 = snd (controller_abort_step (snd (translate st (sig_reason st sg))) s
                                   (fst (translate st (sig_reason st sg))))"
      by (auto simp: split_beta)
    then show ?thesis by (simp add: nodes_rel_same)
  next
    case (UserCb k)
    with a Call show ?thesis by (auto intro: nodes_rel_same)
  qed
next
  case (ClearTimerFields s)
  assume "exec t st = Some (new, st1)"
  with ClearTimerFields show ?thesis by (auto intro: nodes_rel_same)
qed


lemma filter_True_ex: "\<exists>P. xs = filter P xs"
  by (rule exI [of _ "\<lambda>x. True"]) simp

lemma sigs_rel_same:
  "sigs b = sigs a \<Longrightarrow> length (pluses b) = length (pluses a) \<Longrightarrow>
   (\<forall>s. nsignal (pluses b ! s) = nsignal (pluses a ! s)) \<Longrightarrow> sigs_rel a b"
  by (simp add: sigs_rel_def filter_True_ex)

lemma sigs_rel_dispatchEvent: "sigs_rel st (snd (dispatchEvent st n))"
proof -
  let ?v = "(sigs st ! n)\<lparr>listeners := filter (\<lambda>(l, once). \<not> once) (listeners (sigs st ! n))\<rparr>"
  have s: "sigs (snd (dispatchEvent st n)) = (sigs st)[n := ?v]"
    and p: "pluses (snd (dispatchEvent st n)) = pluses st"
    by (simp_all add: dispatchEvent_def Let_def)
  have l: "\<exists>P. listeners ((sigs st)[n := ?v] ! m) = filter P (listeners (sigs st ! m))" for m
  proof (cases "m = n \<and> n < length (sigs st)")
    case True
    then show ?thesis by auto
  next
    case False
    then have "(sigs st)[n := ?v] ! m = sigs st ! m"
      by (cases "n < length (sigs st)") (auto simp: list_update_beyond not_less)
    then show ?thesis by (simp add: filter_True_ex)
  qed
  show ?thesis
    unfolding sigs_rel_def s p
    by (intro conjI allI impI l)
       (simp_all add: nth_list_update_field [where g = own_aborted]
          nth_list_update_field [where g = own_reason]
          nth_list_update_field [where g = fired]
          nth_list_update_field [where g = freason])
qed

lemma sigs_rel_fire:
  assumes "\<not> fired (sigs st ! n)"
  shows "sigs_rel st (st\<lparr>sigs := (sigs st)[n := (sigs st ! n)\<lparr>fired := True, freason := r\<rparr>]\<rparr>)"
proof -
  let ?v = "(sigs st ! n)\<lparr>fired := True, freason := r\<rparr>"
  have f: "fired (sigs st ! m) \<Longrightarrow> (sigs st)[n := ?v] ! m = sigs st ! m" for m
    using assms by (cases "n < length (sigs st)") (auto simp: list_update_beyond not_less nth_list_update)
  show ?thesis
    unfolding sigs_rel_def
    by (intro conjI allI impI)
       (simp_all add: f filter_True_ex nth_list_update_field [where g = own_aborted]
          nth_list_update_field [where g = own_reason]
          nth_list_update_field [where g = listeners])
qed

lemma sigs_rel_signal_abort: "sigs_rel st (snd (signal_abort st n r))"
proof (cases "n < length (sigs st) \<and> \<not> fired (sigs st ! n)")
  case True
  then have "sigs_rel st (st\<lparr>sigs := (sigs st)[n := (sigs st ! n)\<lparr>fired := True, freason := r\<rparr>]\<rparr>)"
    by (simp add: sigs_rel_fire)
  from sigs_rel_trans [OF this sigs_rel_dispatchEvent] True show ?thesis
    by (simp add: signal_abort_def)
next
  case False
  then show ?thesis by (auto simp: signal_abort_def sigs_rel_refl)
qed

lemma sigs_rel_default_reason: "sigs_rel st (snd (default_reason st r))"
  by (simp add: default_reason_def new_AbortError_def sigs_rel_same)

lemma sigs_rel_translate: "sigs_rel st (snd (translate st r))"
  by (simp add: translate_def new_TimeoutError_def sigs_rel_same)

lemma sigs_rel_controller_abort_step: "sigs_rel st (snd (controller_abort_step st s r))"
proof -
  let ?a = "st\<lparr>abortLog := abortLog st @ [(s, r)]\<rparr>"
  let ?b = "snd (default_reason ?a r)"
  have 1: "sigs_rel st ?a" by (simp add: sigs_rel_same)
  have 2: "sigs_rel ?a ?b" by (rule sigs_rel_default_reason)
  have 3: "sigs_rel ?b (snd (signal_abort ?b (nsignal (pluses ?b ! s)) (fst (default_reason ?a r))))"
    by (rule sigs_rel_signal_abort)
  from sigs_rel_trans [OF sigs_rel_trans [OF 1 2] 3] show ?thesis
    by (simp add: controller_abort_step_def split_beta)
qed

lemma sigs_rel_raw_reject: "sigs_rel st (raw_reject st p r)"
  by (simp add: raw_reject_def Let_def sigs_rel_same)

lemma sigs_rel_clearTimeout: "sigs_rel st (clearTimeout st t)"
  by (simp add: clearTimeout_def sigs_rel_same split: option.splits)

lemma sigs_rel_clear_timer_fields: "sigs_rel st (clear_timer_fields st s)"
  by (simp add: clear_timer_fields_def sigs_rel_same nth_list_update_field [where g = nsignal])

lemma exec_sigs_rel: "exec t st = Some (new, st1) \<Longrightarrow> sigs_rel st st1"
proof (cases t)
  case (Call l)
  assume a: "exec t st = Some (new, st1)"
  show ?thesis
  proof (cases l)
    case (ListenCb p sg)
    with a Call show ?thesis
      by (auto simp: doAbort_def sigs_rel_raw_reject split: option.splits)
  next
    case (TimeoutAbortCb s)
    with a Call show ?thesis
      by (auto intro: sigs_rel_trans [OF sigs_rel_clearTimeout sigs_rel_clear_timer_fields])
  next
    case (ForwardCb s sg)
    with a Call have "st1 = snd (controller_abort_step (snd (translate st (sig_reason st sg))) s
                                   (fst (translate st (sig_reason st sg))))"
      by (auto simp: split_beta)
    then show ?thesis
      using sigs_rel_trans [OF sigs_rel_translate sigs_rel_controller_abort_step] by simp
  next
    case (UserCb k)
    with a Call show ?thesis by (auto intro: sigs_rel_refl)
  qed
next
  case (ClearTimerFields s)
  assume "exec t st = Some (new, st1)"
  with ClearTimerFields show ?thesis by (auto intro: sigs_rel_clear_timer_fields)
qed

lemma logs_rel_raw_reject: "logs_rel st (raw_reject st p r)"
  by (simp add: logs_rel_def raw_reject_def Let_def filter_True_ex)

lemma logs_rel_clearTimeout: "logs_rel st (clearTimeout st t)"
  by (auto simp: logs_rel_def clearTimeout_def filter_True_ex split: option.splits)

lemma logs_rel_clear_timer_fields: "logs_rel st (clear_timer_fields st s)"
  by (simp add: logs_rel_def clear_timer_fields_def filter_True_ex)

lemma logs_rel_default_reason: "logs_rel st (snd (default_reason st r))"
  by (simp add: logs_rel_def default_reason_def new_AbortError_def filter_True_ex)

lemma logs_rel_translate: "logs_rel st (snd (translate st r))"
  by (simp add: logs_rel_def translate_def new_TimeoutError_def filter_True_ex)

lemma logs_rel_signal_abort: "logs_rel st (snd (signal_abort st n r))"
  by (simp add: logs_rel_def signal_abort_def dispatchEvent_def Let_def filter_True_ex)

lemma logs_rel_controller_abort_step: "logs_rel st (snd (controller_abort_step st s r))"
proof -
  let ?a = "st\<lparr>abortLog := abortLog st @ [(s, r)]\<rparr>"
  let ?b = "snd (default_reason ?a r)"
  have 1: "logs_rel st ?a" by (simp add: logs_rel_def filter_True_ex)
  have 2: "logs_rel ?a ?b" by (rule logs_rel_default_reason)
  have 3: "logs_rel ?b (snd (signal_abort ?b (nsignal (pluses ?b ! s)) (fst (default_reason ?a r))))"
    by (rule logs_rel_signal_abort)
  from logs_rel_trans [OF logs_rel_trans [OF 1 2] 3] show ?thesis
    by (simp add: controller_abort_step_def split_beta)
qed

lemma exec_logs_rel: "exec t st = Some (new, st1) \<Longrightarrow> logs_rel st st1"
proof (cases t)
  case (Call l)
  assume a: "exec t st = Some (new, st1)"
  show ?thesis
  proof (cases l)
    case (ListenCb p sg)
    with a Call show ?thesis
      by (auto simp: doAbort_def logs_rel_raw_reject split: option.splits)
  next
    case (TimeoutAbortCb s)
    with a Call show ?thesis
      by (auto intro: logs_rel_trans [OF logs_rel_clearTimeout logs_rel_clear_timer_fields])
  next
    case (ForwardCb s sg)
    with a Call have "st1 = snd (controller_abort_step (snd (translate st (sig_reason st sg))) s
                                   (fst (translate st (sig_reason st sg))))"
      by (auto simp: split_beta)
    then show ?thesis
      using logs_rel_trans [OF logs_rel_translate logs_rel_controller_abort_step] by simp
  next
    case (UserCb k)
    with a Call show ?thesis by (auto intro: logs_rel_refl)
  qed
next
  case (ClearTimerFields s)
  assume "exec t st = Some (new, st1)"
  with ClearTimerFields show ?thesis by (auto intro: logs_rel_clear_timer_fields)
qed

text \<open>From one task to a run.\<close>

lemma run_preserves:
  assumes step: "\<And>t st new st1. exec t st = Some (new, st1) \<Longrightarrow> R st st1"
    and refl: "\<And>st. R st st"
    and trans: "\<And>a b c. R a b \<Longrightarrow> R b c \<Longrightarrow> R a c"
  shows "run ts st = Some st' \<Longrightarrow> R st st'"
proof (induction ts st rule: run.induct)
  case (1 st)
  then show ?case by (simp add: refl)
next
  case (2 t ts st)
  from "2.prems" obtain new st1 where e: "exec t st = Some (new, st1)"
    and r: "run (new @ ts) st1 = Some st'"
    by (auto split: option.splits)
  from "2.IH" [OF e HOL.refl r] have "R st1 st'" .
  with step [OF e] show ?case by (rule trans)
qed

lemma run_nodes_rel: "run ts st = Some st' \<Longrightarrow> nodes_rel st st'"
  by (rule run_preserves [where R = nodes_rel, OF exec_nodes_rel nodes_rel_refl nodes_rel_trans])

lemma run_sigs_rel: "run ts st = Some st' \<Longrightarrow> sigs_rel st st'"
  by (rule run_preserves [where R = sigs_rel, OF exec_sigs_rel sigs_rel_refl sigs_rel_trans])

lemma run_logs_rel: "run ts st = Some st' \<Longrightarrow> logs_rel st st'"
  by (rule run_preserves [where R = logs_rel, OF exec_logs_rel logs_rel_refl logs_rel_trans])

section \<open>Well-formed stores stay well-formed, and a run on one returns\<close>

lemma task_ok_nodes_rel: "nodes_rel a b \<Longrightarrow> task_ok b t = task_ok a t"
  by (simp add: task_ok_def nodes_rel_def split: task.splits listener.splits)

lemma chain_ok_nodes_rel: "nodes_rel a b \<Longrightarrow> chain_ok a \<Longrightarrow> chain_ok b"
  by (simp add: chain_ok_def nodes_rel_def)

lemma listeners_ok_rel:
  assumes "listeners_ok a" "nodes_rel a b" "sigs_rel a b"
  shows "listeners_ok b"
  unfolding listeners_ok_def
proof (intro ballI)
  fix x lo assume x: "x \<in> set (sigs b)" and lo: "lo \<in> set (listeners x)"
  from x obtain n where n: "n < length (sigs b)" "x = sigs b ! n" by (auto simp: in_set_conv_nth)
  from assms(3) obtain P where "listeners (sigs b ! n) = filter P (listeners (sigs a ! n))"
    unfolding sigs_rel_def by blast
  with lo n have "lo \<in> set (listeners (sigs a ! n))" by simp
  moreover from assms(3) n have "sigs a ! n \<in> set (sigs a)" by (simp add: sigs_rel_def)
  ultimately have "case lo of (l, once) \<Rightarrow> task_ok a (Call l)"
    using assms(1) unfolding listeners_ok_def by blast
  then show "case lo of (l, once) \<Rightarrow> task_ok b (Call l)"
    by (simp add: task_ok_nodes_rel [OF assms(2)] split_beta)
qed

lemma props_ok_rel:
  assumes "props_ok a" "sigs_rel a b"
  shows "props_ok b"
  unfolding props_ok_def
proof (intro ballI)
  fix x assume "x \<in> set (sigs b)"
  then obtain n where n: "n < length (sigs b)" "x = sigs b ! n" by (auto simp: in_set_conv_nth)
  with assms(2) have "sigs a ! n \<in> set (sigs a)" "own_aborted x = own_aborted (sigs a ! n)"
    "own_reason x = own_reason (sigs a ! n)" by (simp_all add: sigs_rel_def)
  with assms(1) show "own_aborted x \<noteq> Some False \<and> (own_aborted x = None \<longrightarrow> own_reason x = None)"
    unfolding props_ok_def by metis
qed

lemma pluses_ok_rel:
  assumes "pluses_ok a" "sigs_rel a b"
  shows "pluses_ok b"
  unfolding pluses_ok_def
proof (intro ballI)
  fix x assume "x \<in> set (pluses b)"
  then obtain s where s: "s < length (pluses b)" "x = pluses b ! s" by (auto simp: in_set_conv_nth)
  with assms(2) have "pluses a ! s \<in> set (pluses a)" "nsignal x = nsignal (pluses a ! s)"
    "length (sigs b) = length (sigs a)" by (simp_all add: sigs_rel_def)
  with assms(1) show "nsignal x < length (sigs b)" by (simp add: pluses_ok_def)
qed

lemma wf_state_rel: "wf_state a \<Longrightarrow> nodes_rel a b \<Longrightarrow> sigs_rel a b \<Longrightarrow> wf_state b"
  by (auto simp: wf_state_def intro: chain_ok_nodes_rel listeners_ok_rel props_ok_rel pluses_ok_rel)

lemma exec_total:
  assumes "chain_ok st" "task_ok st t"
  shows "\<exists>new st1. exec t st = Some (new, st1)"
proof (cases t)
  case (Call l)
  show ?thesis
  proof (cases l)
    case (ListenCb p sg)
    with assms(2) Call have "p < length (nodes st)" by (simp add: task_ok_def)
    from doAbort_total [OF assms(1) this, of "sig_reason st sg"] ListenCb Call
    show ?thesis by auto
  next
    case (ForwardCb s sg)
    with Call show ?thesis by (simp add: split_beta)
  next
    case (TimeoutAbortCb s)
    with Call show ?thesis by simp
  next
    case (UserCb k)
    with Call show ?thesis by simp
  qed
next
  case (ClearTimerFields s)
  then show ?thesis by simp
qed

lemma tasks_dispatchEvent:
  "listeners_ok st \<Longrightarrow> n < length (sigs st) \<Longrightarrow>
   \<forall>u \<in> set (fst (dispatchEvent st n)). task_ok st u"
  by (auto simp: dispatchEvent_def Let_def listeners_ok_def)

lemma tasks_signal_abort:
  assumes "listeners_ok st"
  shows "\<forall>u \<in> set (fst (signal_abort st n r)). task_ok st u"
proof (cases "n < length (sigs st) \<and> \<not> fired (sigs st ! n)")
  case True
  let ?st = "st\<lparr>sigs := (sigs st)[n := (sigs st ! n)\<lparr>fired := True, freason := r\<rparr>]\<rparr>"
  from True have "fst (signal_abort st n r) = map (\<lambda>(l, once). Call l) (listeners (sigs st ! n))"
    by (simp add: signal_abort_def dispatchEvent_def Let_def)
  with True assms show ?thesis by (auto simp: listeners_ok_def)
next
  case False
  then show ?thesis by (auto simp: signal_abort_def)
qed

lemma task_ok_same: "length (nodes b) = length (nodes a) \<Longrightarrow> task_ok b t = task_ok a t"
  by (simp add: task_ok_def split: task.splits listener.splits)

lemma listeners_ok_same:
  "sigs b = sigs a \<Longrightarrow> length (nodes b) = length (nodes a) \<Longrightarrow> listeners_ok b = listeners_ok a"
  by (simp add: listeners_ok_def task_ok_same [of b a])

lemma tasks_controller_abort_step:
  assumes "listeners_ok st"
  shows "\<forall>u \<in> set (fst (controller_abort_step st s r)). task_ok st u"
proof -
  let ?a = "st\<lparr>abortLog := abortLog st @ [(s, r)]\<rparr>"
  let ?b = "snd (default_reason ?a r)"
  have "listeners_ok ?b" using assms by (simp add: listeners_ok_same [of ?b st])
  from tasks_signal_abort [OF this, of "nsignal (pluses ?b ! s)" "fst (default_reason ?a r)"]
  show ?thesis
    by (simp add: controller_abort_step_def split_beta task_ok_same [of ?b st])
qed

lemma exec_new_ok:
  assumes "listeners_ok st" "exec t st = Some (new, st1)"
  shows "\<forall>u \<in> set new. task_ok st u"
proof (cases t)
  case (Call l)
  show ?thesis
  proof (cases l)
    case (ForwardCb s sg)
    let ?a = "snd (translate st (sig_reason st sg))"
    have "listeners_ok ?a" using assms(1) by (simp add: listeners_ok_same [of ?a st])
    from tasks_controller_abort_step [OF this, of s "fst (translate st (sig_reason st sg))"]
    show ?thesis using assms(2) Call ForwardCb
      by (auto simp: split_beta task_ok_same [of ?a st])
  qed (use assms(2) Call in \<open>auto split: option.splits\<close>)
qed (use assms(2) in auto)

lemma run_total:
  "chain_ok st \<Longrightarrow> listeners_ok st \<Longrightarrow> \<forall>t \<in> set ts. task_ok st t \<Longrightarrow> \<exists>st'. run ts st = Some st'"
proof (induction ts st rule: run.induct)
  case (1 st)
  then show ?case by simp
next
  case (2 t ts st)
  from "2.prems" have "task_ok st t" by simp
  from exec_total [OF "2.prems"(1) this] obtain new st1 where e: "exec t st = Some (new, st1)"
    by blast
  note n = exec_nodes_rel [OF e] and s = exec_sigs_rel [OF e]
  have c: "chain_ok st1" using n "2.prems"(1) by (rule chain_ok_nodes_rel)
  have l: "listeners_ok st1" using "2.prems"(2) n s by (rule listeners_ok_rel)
  have "\<forall>u \<in> set (new @ ts). task_ok st1 u"
    using exec_new_ok [OF "2.prems"(2) e] "2.prems"(3) by (auto simp: task_ok_nodes_rel [OF n])
  from "2.IH" [OF e HOL.refl c l this] e show ?case by simp
qed

section \<open>Every listener among the tasks is called\<close>

lemma sig_native_rel: "sigs_rel a b \<Longrightarrow> sig_native b sg = sig_native a sg"
  by (simp add: sig_native_def sigs_rel_def split: sigref.splits)

lemma reason_fixed_rel:
  assumes "sigs_rel a b" "reason_fixed a sg"
  shows "sig_reason b sg = sig_reason a sg \<and> reason_fixed b sg"
proof -
  let ?n = "sig_native a sg"
  from assms(1) have o: "own_reason (sigs b ! ?n) = own_reason (sigs a ! ?n)"
    and f: "fired (sigs a ! ?n) \<Longrightarrow> fired (sigs b ! ?n) \<and> freason (sigs b ! ?n) = freason (sigs a ! ?n)"
    by (simp_all add: sigs_rel_def)
  from assms(2) have "own_reason (sigs a ! ?n) \<noteq> None \<or> fired (sigs a ! ?n)"
    by (simp add: reason_fixed_def Let_def)
  with o f show ?thesis
    by (auto simp: sig_reason_def reason_fixed_def Let_def sig_native_rel [OF assms(1)]
             split: option.splits)
qed

lemma sig_aborted_rel:
  assumes "sigs_rel a b" "sig_aborted a sg"
  shows "sig_aborted b sg"
proof -
  let ?n = "sig_native a sg"
  from assms(1) have o: "own_aborted (sigs b ! ?n) = own_aborted (sigs a ! ?n)"
    and f: "fired (sigs a ! ?n) \<Longrightarrow> fired (sigs b ! ?n)"
    by (simp_all add: sigs_rel_def)
  with assms(2) show ?thesis
    by (auto simp: sig_aborted_def Let_def sig_native_rel [OF assms(1)] split: option.splits)
qed

lemma rejectLog_mono: "logs_rel a b \<Longrightarrow> x \<in> set (rejectLog a) \<Longrightarrow> x \<in> set (rejectLog b)"
  by (auto simp: logs_rel_def)


text \<open>A listener of \<open>listen\<close> among the tasks is called: the target of its walk is rejected.\<close>

lemma run_calls_ListenCb:
  "run ts st = Some st' \<Longrightarrow> Call (ListenCb p sg) \<in> set ts \<Longrightarrow>
   walk (parent_of st) (settled_of st) p = Some t \<Longrightarrow> reason_fixed st sg \<Longrightarrow>
   (t, sig_reason st sg) \<in> set (rejectLog st')"
proof (induction ts st rule: run.induct)
  case (1 st)
  then show ?case by simp
next
  case (2 u us st)
  from "2.prems"(1) obtain new st1 where e: "exec u st = Some (new, st1)"
    and r: "run (new @ us) st1 = Some st'"
    by (auto split: option.splits)
  show ?case
  proof (cases "u = Call (ListenCb p sg)")
    case True
    with e "2.prems"(3) have "st1 = raw_reject st t (sig_reason st sg)"
      by (simp add: doAbort_def)
    then have "(t, sig_reason st sg) \<in> set (rejectLog st1)"
      by (simp add: raw_reject_def Let_def)
    with run_logs_rel [OF r] show ?thesis by (rule rejectLog_mono)
  next
    case False
    with "2.prems"(2) have m: "Call (ListenCb p sg) \<in> set (new @ us)" by simp
    from exec_nodes_rel [OF e] "2.prems"(3)
    have w: "walk (parent_of st1) (settled_of st1) p = Some t" by (simp add: nodes_rel_def)
    from reason_fixed_rel [OF exec_sigs_rel [OF e] "2.prems"(4)]
    have f: "sig_reason st1 sg = sig_reason st sg" "reason_fixed st1 sg" by simp_all
    from "2.IH" [OF e HOL.refl r m w f(2)] f(1) show ?thesis by simp
  qed
qed

text \<open>A listener of \<open>_listen\<close> among the tasks is called: it calls the controller's \<open>abort\<close>.\<close>

lemma abortLog_controller_abort_step:
  "\<exists>e. abortLog (snd (controller_abort_step st s r)) = abortLog st @ (s, r) # e"
proof -
  let ?a = "st\<lparr>abortLog := abortLog st @ [(s, r)]\<rparr>"
  have 1: "logs_rel ?a (snd (default_reason ?a r))" by (rule logs_rel_default_reason)
  have 2: "logs_rel (snd (default_reason ?a r))
             (snd (signal_abort (snd (default_reason ?a r))
                (nsignal (pluses (snd (default_reason ?a r)) ! s)) (fst (default_reason ?a r))))"
    by (rule logs_rel_signal_abort)
  from logs_rel_trans [OF 1 2] obtain e where
    "abortLog (snd (controller_abort_step st s r)) = abortLog ?a @ e"
    by (auto simp: logs_rel_def controller_abort_step_def split_beta)
  then show ?thesis by simp
qed


section \<open>Timers\<close>

lemma timer_rel_refl: "timer_rel a a"
  by (simp add: timer_rel_def)

lemma timer_rel_trans: "timer_rel a b \<Longrightarrow> timer_rel b c \<Longrightarrow> timer_rel a c"
  unfolding timer_rel_def by metis

lemma timer_rel_same: "pluses b = pluses a \<Longrightarrow> timer_rel a b"
  by (simp add: timer_rel_def)

lemma timer_rel_clear_timer_fields: "timer_rel st (clear_timer_fields st s)"
  unfolding timer_rel_def
proof
  fix s'
  show "timer (pluses (clear_timer_fields st s) ! s') = timer (pluses st ! s') \<or>
        timer (pluses (clear_timer_fields st s) ! s') = None"
    by (cases "s < length (pluses st)"; cases "s' = s")
       (simp_all add: clear_timer_fields_def list_update_beyond not_less)
qed

lemma pluses_doAbort: "doAbort st p r = Some st1 \<Longrightarrow> pluses st1 = pluses st"
  by (auto simp: doAbort_def raw_reject_def Let_def split: option.splits)

lemma pluses_clearTimeout [simp]: "pluses (clearTimeout st t) = pluses st"
  by (simp add: clearTimeout_def split: option.splits)

lemma pluses_translate [simp]: "pluses (snd (translate st r)) = pluses st"
  by (simp add: translate_def new_TimeoutError_def)

lemma pluses_controller_abort_step [simp]: "pluses (snd (controller_abort_step st s r)) = pluses st"
  by (simp add: controller_abort_step_def signal_abort_def dispatchEvent_def default_reason_def
        new_AbortError_def Let_def split_beta)

lemma timers_doAbort: "doAbort st p r = Some st1 \<Longrightarrow> timers st1 = timers st \<and> next_timer st1 = next_timer st"
  by (auto simp: doAbort_def raw_reject_def Let_def split: option.splits)

lemma timers_translate [simp]:
  "timers (snd (translate st r)) = timers st" "next_timer (snd (translate st r)) = next_timer st"
  by (simp_all add: translate_def new_TimeoutError_def)

lemma timers_controller_abort_step [simp]:
  "timers (snd (controller_abort_step st s r)) = timers st"
  "next_timer (snd (controller_abort_step st s r)) = next_timer st"
  by (simp_all add: controller_abort_step_def signal_abort_def dispatchEvent_def default_reason_def
        new_AbortError_def Let_def split_beta)

lemma exec_timer_rel: "exec t st = Some (new, st1) \<Longrightarrow> timer_rel st st1"
proof (cases t)
  case (Call l)
  assume a: "exec t st = Some (new, st1)"
  show ?thesis
  proof (cases l)
    case (ListenCb p sg)
    with a Call show ?thesis by (auto split: option.splits dest: pluses_doAbort intro: timer_rel_same)
  next
    case (TimeoutAbortCb s)
    with a Call have "st1 = clear_timer_fields (clearTimeout st (timer (pluses st ! s))) s" by simp
    with timer_rel_clear_timer_fields [of "clearTimeout st (timer (pluses st ! s))" s]
    show ?thesis by (simp add: timer_rel_def)
  next
    case (ForwardCb s sg)
    with a Call have "st1 = snd (controller_abort_step (snd (translate st (sig_reason st sg))) s
                                   (fst (translate st (sig_reason st sg))))"
      by (auto simp: split_beta)
    then show ?thesis by (simp add: timer_rel_same)
  next
    case (UserCb k)
    with a Call show ?thesis by (auto intro: timer_rel_refl)
  qed
next
  case (ClearTimerFields s)
  assume "exec t st = Some (new, st1)"
  with ClearTimerFields show ?thesis by (auto intro: timer_rel_clear_timer_fields)
qed

lemma run_timer_rel: "run ts st = Some st' \<Longrightarrow> timer_rel st st'"
  by (rule run_preserves [where R = timer_rel, OF exec_timer_rel timer_rel_refl timer_rel_trans])

text \<open>The listener of \<open>timeout\<close> and the end of the timer callback leave \<open>_timer\<close> undefined.\<close>

lemma run_clears_timer:
  "run ts st = Some st' \<Longrightarrow> Call (TimeoutAbortCb s) \<in> set ts \<or> ClearTimerFields s \<in> set ts \<Longrightarrow>
   s < length (pluses st) \<Longrightarrow> timer (pluses st' ! s) = None"
proof (induction ts st rule: run.induct)
  case (1 st)
  then show ?case by simp
next
  case (2 u us st)
  from "2.prems"(1) obtain new st1 where e: "exec u st = Some (new, st1)"
    and r: "run (new @ us) st1 = Some st'"
    by (auto split: option.splits)
  from exec_sigs_rel [OF e] "2.prems"(3) have len: "s < length (pluses st1)"
    by (simp add: sigs_rel_def)
  show ?case
  proof (cases "u = Call (TimeoutAbortCb s) \<or> u = ClearTimerFields s")
    case True
    with e "2.prems"(3) have "timer (pluses st1 ! s) = None"
      by (auto simp: clear_timer_fields_def)
    moreover from run_timer_rel [OF r]
    have "timer (pluses st' ! s) = timer (pluses st1 ! s) \<or> timer (pluses st' ! s) = None"
      by (simp add: timer_rel_def)
    ultimately show ?thesis by auto
  next
    case False
    with "2.prems"(2) have "Call (TimeoutAbortCb s) \<in> set (new @ us) \<or> ClearTimerFields s \<in> set (new @ us)"
      by auto
    from "2.IH" [OF e HOL.refl r this len] show ?thesis .
  qed
qed

text \<open>The timers stay in order.\<close>

lemma timers_of_rel: "logs_rel a b \<Longrightarrow> timers_of a s = [] \<Longrightarrow> timers_of b s = []"
  by (auto simp: logs_rel_def timers_of_def filter_empty_conv)

lemma timers_ok_clear:
  assumes "timers_ok st"
  shows "timers_ok (clear_timer_fields (clearTimeout st (timer (pluses st ! s))) s)"
proof (cases "timer (pluses st ! s)")
  case None
  let ?b = "clear_timer_fields (clearTimeout st (timer (pluses st ! s))) s"
  have "timers ?b = timers st" "next_timer ?b = next_timer st"
    "\<And>s'. timer (pluses ?b ! s') = timer (pluses st ! s')"
    using None
    by (simp_all add: clear_timer_fields_def clearTimeout_def nth_list_update_field [where g = timer])
  with assms show ?thesis by (simp add: timers_ok_def)
next
  case (Some h)
  let ?b = "clear_timer_fields (clearTimeout st (timer (pluses st ! s))) s"
  have t: "timers ?b = filter (\<lambda>(h', due, s). h' \<noteq> h) (timers st)"
    and n: "next_timer ?b = next_timer st"
    and p: "pluses ?b = (pluses st)[s := (pluses st ! s)\<lparr>timer := None, timeout_val := None\<rparr>]"
    using Some by (simp_all add: clear_timer_fields_def clearTimeout_def)
  have "distinct (map fst (timers ?b))"
    using assms unfolding t timers_ok_def by (simp add: distinct_map_filter)
  moreover have "\<forall>(h', due, s') \<in> set (timers ?b). h' < next_timer ?b \<and> timer (pluses ?b ! s') = Some h'"
  proof (clarify)
    fix h' due s' assume m: "(h', due, s') \<in> set (timers ?b)"
    then have m': "(h', due, s') \<in> set (timers st)" "h' \<noteq> h" by (auto simp: t)
    with assms have a: "h' < next_timer st" "timer (pluses st ! s') = Some h'"
      by (auto simp: timers_ok_def)
    with Some m'(2) have "s' \<noteq> s" by auto
    with a show "h' < next_timer ?b \<and> timer (pluses ?b ! s') = Some h'" by (simp add: n p)
  qed
  ultimately show ?thesis by (simp add: timers_ok_def)
qed

lemma timers_ok_clear_fields:
  assumes "timers_ok st" "timers_of st s = []"
  shows "timers_ok (clear_timer_fields st s)"
proof -
  let ?b = "clear_timer_fields st s"
  have ne: "\<And>h' due s'. (h', due, s') \<in> set (timers st) \<Longrightarrow> s' \<noteq> s"
    using assms(2) by (auto simp: timers_of_def filter_empty_conv)
  have "\<forall>(h', due, s') \<in> set (timers ?b). h' < next_timer ?b \<and> timer (pluses ?b ! s') = Some h'"
  proof (clarify)
    fix h' due s' assume m: "(h', due, s') \<in> set (timers ?b)"
    then have m': "(h', due, s') \<in> set (timers st)" by (simp add: clear_timer_fields_def)
    with assms(1) have a: "h' < next_timer st" "timer (pluses st ! s') = Some h'"
      by (auto simp: timers_ok_def)
    from ne [OF m'] a show "h' < next_timer ?b \<and> timer (pluses ?b ! s') = Some h'"
      by (simp add: clear_timer_fields_def)
  qed
  moreover have "distinct (map fst (timers ?b))"
    using assms(1) by (simp add: timers_ok_def clear_timer_fields_def)
  ultimately show ?thesis by (simp add: timers_ok_def)
qed

lemma timers_ok_same:
  "timers b = timers a \<Longrightarrow> next_timer b = next_timer a \<Longrightarrow> pluses b = pluses a \<Longrightarrow>
   timers_ok b = timers_ok a"
  by (simp add: timers_ok_def)

lemma exec_timers_ok:
  assumes "timers_ok st" "\<forall>s. t = ClearTimerFields s \<longrightarrow> timers_of st s = []"
    and e: "exec t st = Some (new, st1)"
  shows "timers_ok st1"
proof (cases t)
  case (Call l)
  show ?thesis
  proof (cases l)
    case (ListenCb p sg)
    with e Call obtain st2 where "doAbort st p (sig_reason st sg) = Some st2" "st1 = st2"
      by (auto split: option.splits)
    then have "timers st1 = timers st" "next_timer st1 = next_timer st" "pluses st1 = pluses st"
      using pluses_doAbort timers_doAbort by blast+
    then have "timers_ok st1 = timers_ok st" by (rule timers_ok_same)
    with assms(1) show ?thesis by simp
  next
    case (TimeoutAbortCb s)
    with e Call have "st1 = clear_timer_fields (clearTimeout st (timer (pluses st ! s))) s" by simp
    with assms(1) show ?thesis by (simp add: timers_ok_clear)
  next
    case (ForwardCb s sg)
    let ?a = "snd (translate st (sig_reason st sg))"
    from e Call ForwardCb have
      "st1 = snd (controller_abort_step ?a s (fst (translate st (sig_reason st sg))))"
      by (simp add: split_beta)
    then have "timers st1 = timers st" "next_timer st1 = next_timer st" "pluses st1 = pluses st"
      by simp_all
    then have "timers_ok st1 = timers_ok st" by (rule timers_ok_same)
    with assms(1) show ?thesis by simp
  next
    case (UserCb k)
    with e Call have "st1 = st" by simp
    with assms(1) show ?thesis by simp
  qed
next
  case (ClearTimerFields s)
  with e have "st1 = clear_timer_fields st s" by simp
  moreover from ClearTimerFields assms(2) have "timers_of st s = []" by simp
  ultimately show ?thesis using assms(1) by (simp add: timers_ok_clear_fields)
qed

lemma exec_new_calls: "exec t st = Some (new, st1) \<Longrightarrow> ClearTimerFields s \<notin> set new"
proof (cases t)
  case (Call l)
  assume e: "exec t st = Some (new, st1)"
  show ?thesis
  proof (cases l)
    case (ForwardCb s' sg)
    with e Call have "new = fst (controller_abort_step (snd (translate st (sig_reason st sg))) s'
                                   (fst (translate st (sig_reason st sg))))"
      by (auto simp: split_beta)
    then show ?thesis
      by (auto simp: controller_abort_step_def signal_abort_def dispatchEvent_def Let_def split_beta)
  qed (use e Call in \<open>auto split: option.splits\<close>)
qed auto

lemma run_timers_ok:
  "run ts st = Some st' \<Longrightarrow> timers_ok st \<Longrightarrow>
   \<forall>s. ClearTimerFields s \<in> set ts \<longrightarrow> timers_of st s = [] \<Longrightarrow> timers_ok st'"
proof (induction ts st rule: run.induct)
  case (1 st)
  then show ?case by simp
next
  case (2 u us st)
  from "2.prems"(1) obtain new st1 where e: "exec u st = Some (new, st1)"
    and r: "run (new @ us) st1 = Some st'"
    by (auto split: option.splits)
  from "2.prems"(3) have "\<forall>s. u = ClearTimerFields s \<longrightarrow> timers_of st s = []" by simp
  from exec_timers_ok [OF "2.prems"(2) this e] have ok: "timers_ok st1" .
  have "\<forall>s. ClearTimerFields s \<in> set (new @ us) \<longrightarrow> timers_of st1 s = []"
    using exec_new_calls [OF e] "2.prems"(3) timers_of_rel [OF exec_logs_rel [OF e]] by auto
  from "2.IH" [OF e HOL.refl r ok this] show ?case .
qed

section \<open>The operations that run listeners return\<close>

lemma evolves_refl: "evolves a a"
  by (simp add: evolves_def nodes_rel_refl sigs_rel_refl logs_rel_refl timer_rel_refl)

lemma evolves_trans: "evolves a b \<Longrightarrow> evolves b c \<Longrightarrow> evolves a c"
  unfolding evolves_def
  by (blast intro: nodes_rel_trans sigs_rel_trans logs_rel_trans timer_rel_trans)

lemma run_evolves: "run ts st = Some st' \<Longrightarrow> evolves st st'"
  by (simp add: evolves_def run_nodes_rel run_sigs_rel run_logs_rel run_timer_rel)

lemma evolves_controller_abort_step: "evolves st (snd (controller_abort_step st s r))"
  by (simp add: evolves_def nodes_rel_same sigs_rel_controller_abort_step
        logs_rel_controller_abort_step timer_rel_same)

lemma evolves_raw_reject: "evolves st (raw_reject st p r)"
proof -
  have "pluses (raw_reject st p r) = pluses st" by (simp add: raw_reject_def Let_def)
  then show ?thesis
    by (simp add: evolves_def nodes_rel_raw_reject sigs_rel_raw_reject logs_rel_raw_reject
          timer_rel_same)
qed

lemma evolves_default_reason: "evolves st (snd (default_reason st r))"
proof -
  have "pluses (snd (default_reason st r)) = pluses st"
    by (simp add: default_reason_def new_AbortError_def)
  then show ?thesis
    by (simp add: evolves_def nodes_rel_same sigs_rel_default_reason logs_rel_default_reason
          timer_rel_same)
qed

lemma evolves_translate: "evolves st (snd (translate st r))"
  by (simp add: evolves_def nodes_rel_same sigs_rel_translate logs_rel_translate timer_rel_same)

lemma wf_evolves: "wf_state a \<Longrightarrow> evolves a b \<Longrightarrow> wf_state b"
  by (auto simp: evolves_def intro: wf_state_rel)

text \<open>A run from a well-formed store, on tasks that name its nodes, returns.\<close>

lemma run_returns:
  assumes "wf_state st" "\<forall>t \<in> set ts. task_ok st t"
  shows "\<exists>st'. run ts st = Some st' \<and> evolves st st' \<and> wf_state st'"
proof -
  from assms have "\<exists>st'. run ts st = Some st'"
    by (simp add: wf_state_def run_total)
  then obtain st' where r: "run ts st = Some st'" by blast
  from run_evolves [OF r] assms(1) have "evolves st st'" "wf_state st'"
    by (auto intro: wf_evolves)
  with r show ?thesis by blast
qed

lemma controller_abort_returns:
  assumes "wf_state st"
  shows "\<exists>st'. controller_abort st s r = Some st' \<and>
           run (fst (controller_abort_step st s r)) (snd (controller_abort_step st s r)) = Some st' \<and>
           evolves (snd (controller_abort_step st s r)) st' \<and> evolves st st' \<and> wf_state st' \<and>
           (\<exists>e. abortLog st' = abortLog st @ (s, r) # e)"
proof -
  let ?ts = "fst (controller_abort_step st s r)"
  let ?a = "snd (controller_abort_step st s r)"
  note ra = evolves_controller_abort_step [of st s r]
  from assms have l: "listeners_ok st" by (simp add: wf_state_def)
  have wa: "wf_state ?a" using assms ra by (rule wf_evolves)
  have "\<forall>t \<in> set ?ts. task_ok ?a t"
    using tasks_controller_abort_step [OF l, of s r] by (simp add: task_ok_same [of ?a st])
  from run_returns [OF wa this] obtain st' where
    r: "run ?ts ?a = Some st'" "evolves ?a st'" "wf_state st'" by blast
  have c: "controller_abort st s r = Some st'"
    using r(1) by (simp add: controller_abort_def split_beta)
  from abortLog_controller_abort_step [of st s r] obtain e1 where
    "abortLog ?a = abortLog st @ (s, r) # e1" by blast
  moreover from r(2) obtain e2 where "abortLog st' = abortLog ?a @ e2"
    by (auto simp: evolves_def logs_rel_def)
  ultimately have "abortLog st' = abortLog st @ (s, r) # (e1 @ e2)" by simp
  with c r evolves_trans [OF ra r(2)] show ?thesis by blast
qed

section \<open>abort\<close>

lemma parent_of_default_reason [simp]: "parent_of (snd (default_reason st r)) = parent_of st"
  by (rule ext) (simp add: parent_of_def)

lemma settled_of_default_reason [simp]: "settled_of (snd (default_reason st r)) = settled_of st"
  by (rule ext) (simp add: settled_of_def)

lemma signal_raw_reject [simp]: "signal (nodes (raw_reject st p r) ! i) = signal (nodes st ! i)"
  using nodes_rel_raw_reject [of st p r] by (simp add: nodes_rel_def)

text \<open>\<open>abort\<close> once the walk has ended at \<open>t\<close>.\<close>

lemma abort_unfold:
  assumes "walk (parent_of st) (settled_of st) this = Some t"
  shows "abort st this r0 =
     (let reason = fst (default_reason st r0);
          st1 = raw_reject (snd (default_reason st r0)) t reason
      in case signal (nodes st ! this) of
                None \<Rightarrow> Some (Returned st1)
              | Some (Plus s) \<Rightarrow>
                  (case controller_abort st1 s reason of
                     None \<Rightarrow> None | Some st2 \<Rightarrow> Some (Returned st2))
              | Some (Native n) \<Rightarrow>
                  (case defineProperty (own_aborted (sigs st1 ! n)) True of
                     Inl e \<Rightarrow> Some (Thrown e st1)
                   | Inr a \<Rightarrow>
                       (let st2 = st1\<lparr>sigs := (sigs st1)[n := (sigs st1 ! n)\<lparr>own_aborted := a\<rparr>]\<rparr>
                        in case defineProperty (own_reason (sigs st2 ! n)) reason of
                             Inl e \<Rightarrow> Some (Thrown e st2)
                           | Inr b \<Rightarrow>
                               (let st3 = st2\<lparr>sigs := (sigs st2)[n := (sigs st2 ! n)\<lparr>own_reason := b\<rparr>]\<rparr>;
                                    (ts, st4) = dispatchEvent st3 n
                                in case run ts st4 of
                                     None \<Rightarrow> None | Some st5 \<Rightarrow> Some (Returned st5)))))"
proof -
  have "doAbort (snd (default_reason st r0)) this (fst (default_reason st r0)) =
        Some (raw_reject (snd (default_reason st r0)) t (fst (default_reason st r0)))"
    using assms by (simp add: doAbort_def)
  then show ?thesis
    by (simp add: abort_def split_beta Let_def)
qed

lemma abort_unbound:
  assumes "walk (parent_of st) (settled_of st) this = Some t" "signal (nodes st ! this) = None"
  shows "abort st this r0 =
           Some (Returned (raw_reject (snd (default_reason st r0)) t (fst (default_reason st r0))))"
  using assms(2) by (simp add: abort_unfold [OF assms(1)] Let_def)

lemma stops_iff: "stops st x \<longleftrightarrow> \<not> (x \<noteq> parent_of st x \<and> \<not> settled_of st (parent_of st x))"
  by (auto simp: stops_def)


section \<open>The operations keep the store well-formed\<close>

lemma listeners_okI:
  assumes "\<And>n p sg once. n < length (sigs st) \<Longrightarrow>
             (ListenCb p sg, once) \<in> set (listeners (sigs st ! n)) \<Longrightarrow> p < length (nodes st)"
  shows "listeners_ok st"
  unfolding listeners_ok_def
proof (intro ballI)
  fix x lo assume x: "x \<in> set (sigs st)" and lo: "lo \<in> set (listeners x)"
  from x obtain n where n: "n < length (sigs st)" "x = sigs st ! n" by (auto simp: in_set_conv_nth)
  obtain l once where lo': "lo = (l, once)" by (cases lo)
  show "case lo of (l, once) \<Rightarrow> task_ok st (Call l)"
  proof (cases l)
    case (ListenCb p sg)
    with assms [OF n(1), of p sg once] lo lo' n(2) show ?thesis by (simp add: task_ok_def)
  qed (simp_all add: lo' task_ok_def)
qed

lemma listeners_okD:
  assumes "listeners_ok st" "n < length (sigs st)"
    "(ListenCb p sg, once) \<in> set (listeners (sigs st ! n))"
  shows "p < length (nodes st)"
proof -
  from assms(2) have "sigs st ! n \<in> set (sigs st)" by simp
  with assms(1,3) have "task_ok st (Call (ListenCb p sg))"
    unfolding listeners_ok_def by blast
  then show ?thesis by (simp add: task_ok_def)
qed

lemma wf_init: "wf_state init"
  by (simp add: wf_state_def init_def chain_ok_def listeners_ok_def props_ok_def pluses_ok_def)

lemma chain_ok_update:
  assumes "chain_ok st" "parent v = parent (nodes st ! p)"
  shows "chain_ok (st\<lparr>nodes := (nodes st)[p := v]\<rparr>)"
  using assms by (simp add: chain_ok_def parent_of_def nth_list_update_field [where g = parent])

lemma wf_nodes_update:
  assumes "wf_state st" "parent v = parent (nodes st ! p)"
  shows "wf_state (st\<lparr>nodes := (nodes st)[p := v]\<rparr>)"
proof -
  let ?b = "st\<lparr>nodes := (nodes st)[p := v]\<rparr>"
  have l: "listeners_ok ?b = listeners_ok st" by (rule listeners_ok_same) simp_all
  from assms(1) have "chain_ok st" by (simp add: wf_state_def)
  then have c: "chain_ok ?b" using assms(2) by (rule chain_ok_update)
  have "props_ok ?b = props_ok st" "pluses_ok ?b = pluses_ok st"
    by (simp_all add: props_ok_def pluses_ok_def)
  with l c assms(1) show ?thesis by (simp add: wf_state_def)
qed

lemma wf_nodes_append:
  assumes "wf_state st" "parent nd \<le> length (nodes st)"
  shows "wf_state (st\<lparr>nodes := nodes st @ [nd]\<rparr>)"
proof -
  let ?b = "st\<lparr>nodes := nodes st @ [nd]\<rparr>"
  have c: "chain_ok ?b"
    using assms by (auto simp: wf_state_def chain_ok_def parent_of_def nth_append less_Suc_eq)
  have l: "listeners_ok ?b"
  proof (rule listeners_okI)
    fix n p sg once
    assume "n < length (sigs ?b)" "(ListenCb p sg, once) \<in> set (listeners (sigs ?b ! n))"
    with assms(1) have "p < length (nodes st)"
      by (auto simp: wf_state_def dest: listeners_okD)
    then show "p < length (nodes ?b)" by simp
  qed
  from c l assms(1) show ?thesis by (simp add: wf_state_def props_ok_def pluses_ok_def)
qed

lemma sig_native_ok: "pluses_ok st \<Longrightarrow> sig_ok st sg \<Longrightarrow> sig_native st sg < length (sigs st)"
  by (auto simp: pluses_ok_def sig_ok_def sig_native_def split: sigref.splits)

lemma props_ok_update:
  assumes "props_ok st" "own_aborted v = own_aborted (sigs st ! n)" "own_reason v = own_reason (sigs st ! n)"
  shows "props_ok (st\<lparr>sigs := (sigs st)[n := v]\<rparr>)"
  unfolding props_ok_def
proof (intro ballI)
  fix x assume "x \<in> set (sigs (st\<lparr>sigs := (sigs st)[n := v]\<rparr>))"
  then obtain m where m: "m < length (sigs st)" "x = (sigs st)[n := v] ! m"
    by (auto simp: in_set_conv_nth)
  then have "own_aborted x = own_aborted (sigs st ! m)" "own_reason x = own_reason (sigs st ! m)"
    using assms(2,3)
    by (simp_all add: nth_list_update_field [where g = own_aborted]
          nth_list_update_field [where g = own_reason])
  moreover from m have "sigs st ! m \<in> set (sigs st)" by simp
  ultimately show "own_aborted x \<noteq> Some False \<and> (own_aborted x = None \<longrightarrow> own_reason x = None)"
    using assms(1) unfolding props_ok_def by metis
qed

lemma wf_addEventListener:
  assumes "wf_state st" "task_ok st (Call l)"
  shows "wf_state (addEventListener st sg l once)"
proof -
  let ?n = "sig_native st sg"
  let ?v = "(sigs st ! ?n)\<lparr>listeners := listeners (sigs st ! ?n) @ [(l, once)]\<rparr>"
  let ?b = "addEventListener st sg l once"
  have s: "sigs ?b = (sigs st)[?n := ?v]" and n: "nodes ?b = nodes st" and p: "pluses ?b = pluses st"
    by (simp_all add: addEventListener_def Let_def)
  have b: "?b = st\<lparr>sigs := (sigs st)[?n := ?v]\<rparr>" by (simp add: addEventListener_def Let_def)
  have c: "chain_ok ?b" using assms(1) by (simp add: wf_state_def chain_ok_def parent_of_def n)
  have l: "listeners_ok ?b"
  proof (rule listeners_okI)
    fix m p' sg' once'
    assume m: "m < length (sigs ?b)" and i: "(ListenCb p' sg', once') \<in> set (listeners (sigs ?b ! m))"
    from m have m': "m < length (sigs st)" by (simp add: s)
    have "p' < length (nodes st)"
    proof (cases "m = ?n")
      case True
      with i m' have "(ListenCb p' sg', once') = (l, once) \<or>
           (ListenCb p' sg', once') \<in> set (listeners (sigs st ! m))" by (auto simp: s)
      then show ?thesis
      proof
        assume "(ListenCb p' sg', once') = (l, once)"
        with assms(2) show ?thesis by (auto simp: task_ok_def)
      next
        assume "(ListenCb p' sg', once') \<in> set (listeners (sigs st ! m))"
        with assms(1) m' show ?thesis by (auto simp: wf_state_def dest: listeners_okD)
      qed
    next
      case False
      with i have "(ListenCb p' sg', once') \<in> set (listeners (sigs st ! m))" by (simp add: s)
      with assms(1) m' show ?thesis by (auto simp: wf_state_def dest: listeners_okD)
    qed
    then show "p' < length (nodes ?b)" by (simp add: n)
  qed
  have pr: "props_ok ?b" unfolding b using assms(1) by (intro props_ok_update) (simp_all add: wf_state_def)
  have pl: "pluses_ok ?b" using assms(1) by (simp add: wf_state_def pluses_ok_def s p)
  from c l pr pl show ?thesis by (simp add: wf_state_def)
qed

lemma nodes_addEventListener [simp]: "nodes (addEventListener st sg l once) = nodes st"
  by (simp add: addEventListener_def Let_def)

lemma pluses_addEventListener [simp]: "pluses (addEventListener st sg l once) = pluses st"
  by (simp add: addEventListener_def Let_def)

lemma parent_of_same: "nodes b = nodes a \<Longrightarrow> parent_of b = parent_of a"
  by (rule ext) (simp add: parent_of_def)

lemma settled_of_same: "nodes b = nodes a \<Longrightarrow> settled_of b = settled_of a"
  by (rule ext) (simp add: settled_of_def)

lemma wf_doAbort: "wf_state st \<Longrightarrow> doAbort st p r = Some st' \<Longrightarrow> wf_state st'"
  by (auto simp: doAbort_def split: option.splits intro: wf_evolves evolves_raw_reject)

lemma wf_listen:
  assumes "wf_state st" "p < length (nodes st)"
  shows "\<exists>st'. listen st p sg = Some st' \<and> wf_state st' \<and> length (nodes st') = length (nodes st) \<and>
               parent_of st' = parent_of st"
proof -
  let ?a = "st\<lparr>nodes := (nodes st)[p := (nodes st ! p)\<lparr>signal := Some sg\<rparr>]\<rparr>"
  have wa: "wf_state ?a" using assms(1) by (rule wf_nodes_update) simp
  have pa: "parent_of ?a = parent_of st"
    by (rule ext) (simp add: parent_of_def nth_list_update_field [where g = parent])
  show ?thesis
  proof (cases "sig_aborted ?a sg")
    case True
    from wa have "chain_ok ?a" by (simp add: wf_state_def)
    from doAbort_total [OF this, of p "sig_reason ?a sg"] assms(2) obtain t where
      d: "doAbort ?a p (sig_reason ?a sg) = Some (raw_reject ?a t (sig_reason ?a sg))" by auto
    from nodes_rel_raw_reject [of ?a t "sig_reason ?a sg"]
    have "length (nodes (raw_reject ?a t (sig_reason ?a sg))) = length (nodes st)"
      "parent_of (raw_reject ?a t (sig_reason ?a sg)) = parent_of st"
      by (simp_all add: nodes_rel_def pa)
    with True d wf_doAbort [OF wa d] show ?thesis by (simp add: listen_def Let_def)
  next
    case False
    have "task_ok ?a (Call (ListenCb p sg))" using assms(2) by (simp add: task_ok_def)
    have "parent_of (addEventListener ?a sg (ListenCb p sg) True) = parent_of ?a"
      by (rule parent_of_same) simp
    with wf_addEventListener [OF wa \<open>task_ok ?a (Call (ListenCb p sg))\<close>, of sg True] False pa
    show ?thesis by (simp add: listen_def Let_def)
  qed
qed

section \<open>The executor\<close>

text \<open>The two functions handed to the executor.\<close>

lemma nth_update_same_index: "p < length xs \<Longrightarrow> xs[p := v] ! p = v"
  by simp

lemma resolve_cap_nodes:
  "nodes (resolve_cap st p v) =
     (nodes st)[p := (nodes st ! p)\<lparr>underlying :=
        (if underlying (nodes st ! p) = Pending
         then (case v of Thenable k \<Rightarrow> Locked k | _ \<Rightarrow> Fulfilled v)
         else underlying (nodes st ! p)), isSettled := True\<rparr>]"
  by (cases "p < length (nodes st)")
     (simp_all add: resolve_cap_def raw_resolve_def Let_def list_update_beyond not_less)

lemma reject_cap_nodes:
  "nodes (reject_cap st p r) =
     (nodes st)[p := (nodes st ! p)\<lparr>underlying :=
        (if underlying (nodes st ! p) = Pending then Rejected r else underlying (nodes st ! p)),
        isSettled := True\<rparr>]"
  by (cases "p < length (nodes st)")
     (simp_all add: reject_cap_def raw_reject_def Let_def list_update_beyond not_less)

lemma resolve_cap_rest:
  "resolve_cap st p v = st\<lparr>nodes := nodes (resolve_cap st p v)\<rparr>"
  by (simp add: resolve_cap_def raw_resolve_def Let_def)

lemma reject_cap_rest:
  "reject_cap st p r = st\<lparr>nodes := nodes (reject_cap st p r), rejectLog := rejectLog st @ [(p, r)]\<rparr>"
  by (simp add: reject_cap_def raw_reject_def Let_def)

lemma cap_rel_refl: "cap_rel a a"
  by (simp add: cap_rel_def)

lemma cap_rel_trans: "cap_rel a b \<Longrightarrow> cap_rel b c \<Longrightarrow> cap_rel a c"
  by (auto simp: cap_rel_def)

lemma cap_rel_update:
  assumes "parent v = parent (nodes st ! p)" "signal v = signal (nodes st ! p)"
    "underlying (nodes st ! p) \<noteq> Pending \<longrightarrow> underlying v = underlying (nodes st ! p)"
    "isSettled (nodes st ! p) \<longrightarrow> isSettled v"
    "\<exists>e. lg = rejectLog st @ e"
  shows "cap_rel st (st\<lparr>nodes := (nodes st)[p := v], rejectLog := lg\<rparr>)"
proof -
  have u: "underlying (nodes st ! i) \<noteq> Pending \<Longrightarrow>
           underlying ((nodes st)[p := v] ! i) = underlying (nodes st ! i)" for i
    using assms(3)
    by (cases "p < length (nodes st)"; cases "i = p") (simp_all add: list_update_beyond not_less)
  have s: "isSettled (nodes st ! i) \<Longrightarrow> isSettled ((nodes st)[p := v] ! i)" for i
    using assms(4)
    by (cases "p < length (nodes st)"; cases "i = p") (simp_all add: list_update_beyond not_less)
  have pa: "parent_of (st\<lparr>nodes := (nodes st)[p := v], rejectLog := lg\<rparr>) = parent_of st"
    by (rule ext) (simp add: parent_of_def nth_list_update_field [where g = parent] assms(1))
  show ?thesis
    unfolding cap_rel_def
    by (intro conjI allI impI)
       (simp_all add: pa u s assms(5) nth_list_update_field [where g = signal] assms(2))
qed

lemma cap_rel_resolve_cap: "cap_rel st (resolve_cap st p v)"
proof -
  let ?v = "(nodes st ! p)\<lparr>underlying :=
        (if underlying (nodes st ! p) = Pending
         then (case v of Thenable k \<Rightarrow> Locked k | _ \<Rightarrow> Fulfilled v)
         else underlying (nodes st ! p)), isSettled := True\<rparr>"
  have "resolve_cap st p v = st\<lparr>nodes := (nodes st)[p := ?v], rejectLog := rejectLog st\<rparr>"
    by (subst resolve_cap_rest) (simp add: resolve_cap_nodes)
  moreover have "cap_rel st (st\<lparr>nodes := (nodes st)[p := ?v], rejectLog := rejectLog st\<rparr>)"
    by (rule cap_rel_update) simp_all
  ultimately show ?thesis by simp
qed

lemma cap_rel_reject_cap: "cap_rel st (reject_cap st p r)"
proof -
  let ?v = "(nodes st ! p)\<lparr>underlying :=
        (if underlying (nodes st ! p) = Pending then Rejected r else underlying (nodes st ! p)),
        isSettled := True\<rparr>"
  have "reject_cap st p r = st\<lparr>nodes := (nodes st)[p := ?v], rejectLog := rejectLog st @ [(p, r)]\<rparr>"
    by (subst reject_cap_rest) (simp add: reject_cap_nodes)
  moreover have "cap_rel st (st\<lparr>nodes := (nodes st)[p := ?v], rejectLog := rejectLog st @ [(p, r)]\<rparr>)"
    by (rule cap_rel_update) simp_all
  ultimately show ?thesis by simp
qed

lemma cap_rel_run_executor: "cap_rel st (run_executor st p ex)"
proof (induction st p ex rule: run_executor.induct)
  case (1 st p)
  show ?case by (simp add: cap_rel_refl)
next
  case (2 st p v cs)
  from cap_rel_trans [OF cap_rel_resolve_cap "2.IH"] show ?case by simp
next
  case (3 st p r cs)
  from cap_rel_trans [OF cap_rel_reject_cap "3.IH"] show ?case by simp
qed

lemma isSettled_resolve_cap: "p < length (nodes st) \<Longrightarrow> isSettled (nodes (resolve_cap st p v) ! p)"
  by (simp add: resolve_cap_nodes)

lemma isSettled_reject_cap: "p < length (nodes st) \<Longrightarrow> isSettled (nodes (reject_cap st p r) ! p)"
  by (simp add: reject_cap_nodes)

lemma wf_cap_rel:
  assumes "wf_state a" "cap_rel a b"
  shows "wf_state b"
proof -
  from assms have "chain_ok b" by (simp add: wf_state_def cap_rel_def chain_ok_def)
  moreover have "listeners_ok b = listeners_ok a"
    using assms(2) by (intro listeners_ok_same) (simp_all add: cap_rel_def)
  moreover have "props_ok b = props_ok a" "pluses_ok b = pluses_ok a"
    using assms(2) by (simp_all add: cap_rel_def props_ok_def pluses_ok_def)
  ultimately show ?thesis using assms(1) by (simp add: wf_state_def)
qed

section \<open>Firing a signal\<close>

text \<open>Firing a signal that has not fired.\<close>

lemma signal_abort_fires:
  assumes "n < length (sigs st)" "\<not> fired (sigs st ! n)"
  shows "fst (signal_abort st n r) = map (\<lambda>(l, once). Call l) (listeners (sigs st ! n))"
    and "sigs (snd (signal_abort st n r)) =
           (sigs st)[n := (sigs st ! n)\<lparr>fired := True, freason := r,
              listeners := filter (\<lambda>(l, once). \<not> once) (listeners (sigs st ! n))\<rparr>]"
  using assms by (simp_all add: signal_abort_def dispatchEvent_def Let_def)

lemma signal_abort_rest:
  "nodes (snd (signal_abort st n r)) = nodes st"
  "pluses (snd (signal_abort st n r)) = pluses st"
  "timers (snd (signal_abort st n r)) = timers st"
  "next_timer (snd (signal_abort st n r)) = next_timer st"
  "rejectLog (snd (signal_abort st n r)) = rejectLog st"
  "abortLog (snd (signal_abort st n r)) = abortLog st"
  "next_obj (snd (signal_abort st n r)) = next_obj st"
  "now (snd (signal_abort st n r)) = now st"
  by (simp_all add: signal_abort_def dispatchEvent_def Let_def)

lemma evolves_signal_abort: "evolves st (snd (signal_abort st n r))"
  by (simp add: evolves_def nodes_rel_same sigs_rel_signal_abort logs_rel_signal_abort
        timer_rel_same signal_abort_rest)

lemma signal_abort_fired:
  assumes "n < length (sigs st)"
  shows "fired (sigs (snd (signal_abort st n r)) ! n)"
proof (cases "fired (sigs st ! n)")
  case True
  then show ?thesis by (simp add: signal_abort_def)
next
  case False
  with assms show ?thesis by (simp add: signal_abort_fires)
qed

text \<open>The host's \<open>abort\<close> on a native controller.\<close>

lemma native_abort_unfold:
  "native_abort st n r =
     run (fst (signal_abort (native_alloc st r) n (native_reason st r)))
         (snd (signal_abort (native_alloc st r) n (native_reason st r)))"
  by (simp add: native_abort_def native_alloc_def native_reason_def split_beta)

lemma evolves_native_alloc: "evolves st (native_alloc st r)"
  by (simp add: native_alloc_def evolves_def nodes_rel_same sigs_rel_same logs_rel_def
        filter_True_ex timer_rel_same)

lemma native_alloc_rest [simp]:
  "nodes (native_alloc st r) = nodes st" "sigs (native_alloc st r) = sigs st"
  "pluses (native_alloc st r) = pluses st" "timers (native_alloc st r) = timers st"
  "rejectLog (native_alloc st r) = rejectLog st" "abortLog (native_alloc st r) = abortLog st"
  by (simp_all add: native_alloc_def)

lemma native_abort_returns:
  assumes "wf_state st"
  shows "\<exists>st'. native_abort st n r = Some st' \<and>
           run (fst (signal_abort (native_alloc st r) n (native_reason st r)))
               (snd (signal_abort (native_alloc st r) n (native_reason st r))) = Some st' \<and>
           evolves (snd (signal_abort (native_alloc st r) n (native_reason st r))) st' \<and>
           evolves st st' \<and> wf_state st'"
proof -
  let ?a = "native_alloc st r"
  let ?ts = "fst (signal_abort ?a n (native_reason st r))"
  let ?b = "snd (signal_abort ?a n (native_reason st r))"
  have ea: "evolves st ?a" by (rule evolves_native_alloc)
  have eb: "evolves ?a ?b" by (rule evolves_signal_abort)
  have wa: "wf_state ?a" using assms ea by (rule wf_evolves)
  have wb: "wf_state ?b" using wa eb by (rule wf_evolves)
  from wa have "listeners_ok ?a" by (simp add: wf_state_def)
  from tasks_signal_abort [OF this, of n "native_reason st r"]
  have "\<forall>t \<in> set ?ts. task_ok ?b t"
    by (simp add: task_ok_same [of ?b ?a] signal_abort_rest)
  from run_returns [OF wb this] obtain st' where
    r: "run ?ts ?b = Some st'" "evolves ?b st'" "wf_state st'" by blast
  from evolves_trans [OF evolves_trans [OF ea eb] r(2)] r show ?thesis
    by (auto simp: native_abort_unfold)
qed

lemma run_calls_ListenCb_settles:
  "run ts st = Some st' \<Longrightarrow> Call (ListenCb p sg) \<in> set ts \<Longrightarrow>
   walk (parent_of st) (settled_of st) p = Some t \<Longrightarrow> t < length (nodes st) \<Longrightarrow>
   underlying (nodes st' ! t) \<noteq> Pending"
proof (induction ts st rule: run.induct)
  case (1 st)
  then show ?case by simp
next
  case (2 u us st)
  from "2.prems"(1) obtain new st1 where e: "exec u st = Some (new, st1)"
    and r: "run (new @ us) st1 = Some st'"
    by (auto split: option.splits)
  show ?case
  proof (cases "u = Call (ListenCb p sg)")
    case True
    with e "2.prems"(3) have "st1 = raw_reject st t (sig_reason st sg)"
      by (simp add: doAbort_def)
    with "2.prems"(4) have "underlying (nodes st1 ! t) \<noteq> Pending"
      by (simp add: raw_reject_def Let_def)
    with run_nodes_rel [OF r] show ?thesis by (simp add: nodes_rel_def)
  next
    case False
    with "2.prems"(2) have m: "Call (ListenCb p sg) \<in> set (new @ us)" by simp
    from exec_nodes_rel [OF e] "2.prems"(3,4)
    have w: "walk (parent_of st1) (settled_of st1) p = Some t" "t < length (nodes st1)"
      by (simp_all add: nodes_rel_def)
    from "2.IH" [OF e HOL.refl r m w] show ?thesis .
  qed
qed

section \<open>The constructor, given a signal\<close>

lemma sig_aborted_same:
  "sigs b = sigs a \<Longrightarrow> pluses b = pluses a \<Longrightarrow> sig_aborted b sg = sig_aborted a sg"
  by (cases sg) (simp_all add: sig_aborted_def sig_native_def)

lemma sig_reason_same:
  "sigs b = sigs a \<Longrightarrow> pluses b = pluses a \<Longrightarrow> sig_reason b sg = sig_reason a sg"
  by (cases sg) (simp_all add: sig_reason_def sig_native_def)

lemma sig_native_same: "pluses b = pluses a \<Longrightarrow> sig_native b sg = sig_native a sg"
  by (cases sg) (simp_all add: sig_native_def)

lemma walk_root: "par p = p \<Longrightarrow> walk par settled p = Some p"
  by (subst walk.simps) simp


lemma fresh_node_simps [simp]:
  "sigs (fresh_node st sg) = sigs st" "pluses (fresh_node st sg) = pluses st"
  "length (nodes (fresh_node st sg)) = Suc (length (nodes st))"
  "parent_of (fresh_node st sg) (length (nodes st)) = length (nodes st)"
  "underlying (nodes (fresh_node st sg) ! length (nodes st)) = Pending"
  "rejectLog (fresh_node st sg) = rejectLog st"
  by (simp_all add: fresh_node_def parent_of_def)

lemma listen_fresh:
  "listen (st\<lparr>nodes := nodes st @ [\<lparr>parent = length (nodes st), isSettled = False, signal = None,
                                      underlying = Pending\<rparr>]\<rparr>) (length (nodes st)) sg =
     (if sig_aborted st sg
      then Some (raw_reject (fresh_node st sg) (length (nodes st)) (sig_reason st sg))
      else Some (addEventListener (fresh_node st sg) sg (ListenCb (length (nodes st)) sg) True))"
proof -
  let ?p = "length (nodes st)"
  let ?a = "st\<lparr>nodes := nodes st @ [\<lparr>parent = ?p, isSettled = False, signal = None,
                                      underlying = Pending\<rparr>]\<rparr>"
  have f: "?a\<lparr>nodes := (nodes ?a)[?p := (nodes ?a ! ?p)\<lparr>signal := Some sg\<rparr>]\<rparr> = fresh_node st sg"
    by (simp add: fresh_node_def)
  have a: "sig_aborted (fresh_node st sg) sg = sig_aborted st sg"
    by (rule sig_aborted_same) simp_all
  have r: "sig_reason (fresh_node st sg) sg = sig_reason st sg"
    by (rule sig_reason_same) simp_all
  have w: "walk (parent_of (fresh_node st sg)) (settled_of (fresh_node st sg)) ?p = Some ?p"
    by (rule walk_root) simp
  show ?thesis
    unfolding listen_def Let_def f a r by (simp add: doAbort_def w)
qed

lemma construct_bound:
  "construct st executor (Some sg) =
     Some (run_executor
             (if sig_aborted st sg
              then raw_reject (fresh_node st sg) (length (nodes st)) (sig_reason st sg)
              else addEventListener (fresh_node st sg) sg (ListenCb (length (nodes st)) sg) True)
             (length (nodes st)) executor,
           length (nodes st))"
  by (simp add: construct_def Let_def listen_fresh)

lemma wf_fresh_node: "wf_state st \<Longrightarrow> wf_state (fresh_node st sg)"
  unfolding fresh_node_def by (rule wf_nodes_append) simp_all

lemma underlying_run_executor:
  "underlying (nodes st ! i) \<noteq> Pending \<Longrightarrow>
   underlying (nodes (run_executor st p ex) ! i) = underlying (nodes st ! i)"
  using cap_rel_run_executor [of st p ex] by (simp add: cap_rel_def)

lemma underlying_resolve_cap:
  "underlying (nodes st ! i) \<noteq> Pending \<Longrightarrow>
   underlying (nodes (resolve_cap st p v) ! i) = underlying (nodes st ! i)"
  using cap_rel_resolve_cap [of st p v] by (simp add: cap_rel_def)

lemma unaborted_unfired:
  assumes "props_ok st" "n < length (sigs st)"
    "\<not> (case own_aborted (sigs st ! n) of Some b \<Rightarrow> b | None \<Rightarrow> fired (sigs st ! n))"
  shows "\<not> fired (sigs st ! n) \<and> own_aborted (sigs st ! n) = None \<and> own_reason (sigs st ! n) = None"
proof -
  from assms(2) have "sigs st ! n \<in> set (sigs st)" by simp
  with assms(1) have "own_aborted (sigs st ! n) \<noteq> Some False"
    "own_aborted (sigs st ! n) = None \<longrightarrow> own_reason (sigs st ! n) = None"
    unfolding props_ok_def by blast+
  with assms(3) show ?thesis by (cases "own_aborted (sigs st ! n)") auto
qed

text \<open>
  A signal with a listener of \<open>listen\<close> fires: the target of the node's walk is rejected
  with the signal's reason.
\<close>

lemma listener_fires:
  assumes wf: "wf_state st" and n: "n = sig_native st sg" "n < length (sigs st)"
    and un: "\<not> sig_aborted st sg"
    and li: "(ListenCb p sg, once) \<in> set (listeners (sigs st ! n))"
    and w: "walk (parent_of st) (settled_of st) p = Some t" "t < length (nodes st)"
  shows "\<exists>st3. native_abort st n r = Some st3 \<and> wf_state st3 \<and> evolves st st3 \<and>
           sig_aborted st3 sg \<and> sig_reason st3 sg = native_reason st r \<and>
           (t, native_reason st r) \<in> set (rejectLog st3) \<and> underlying (nodes st3 ! t) \<noteq> Pending"
proof -
  let ?a = "native_alloc st r"
  let ?r = "native_reason st r"
  let ?ts = "fst (signal_abort ?a n ?r)"
  let ?b = "snd (signal_abort ?a n ?r)"
  from wf have pr: "props_ok st" by (simp add: wf_state_def)
  from un have "\<not> (case own_aborted (sigs st ! n) of Some b \<Rightarrow> b | None \<Rightarrow> fired (sigs st ! n))"
    unfolding n(1) by (simp add: sig_aborted_def Let_def)
  from unaborted_unfired [OF pr n(2) this]
  have u: "\<not> fired (sigs st ! n)" "own_aborted (sigs st ! n) = None" "own_reason (sigs st ! n) = None"
    by simp_all
  have na: "n < length (sigs ?a)" "\<not> fired (sigs ?a ! n)" using n(2) u(1) by simp_all
  note f = signal_abort_fires [OF na, of ?r]
  have ts: "Call (ListenCb p sg) \<in> set ?ts"
    using li unfolding f(1) by (auto simp: image_iff intro!: bexI [of _ "(ListenCb p sg, once)"])
  have nb: "sig_native ?b sg = n"
    unfolding n(1) by (rule sig_native_same) (simp add: signal_abort_rest)
  have sb: "sigs ?b ! n = (sigs st ! n)\<lparr>fired := True, freason := ?r,
              listeners := filter (\<lambda>(l, once). \<not> once) (listeners (sigs st ! n))\<rparr>"
    unfolding f(2) using n(2) by simp
  have rb: "sig_reason ?b sg = ?r" "reason_fixed ?b sg" "sig_aborted ?b sg"
    by (simp_all add: sig_reason_def reason_fixed_def sig_aborted_def Let_def nb sb u)
  have wb: "walk (parent_of ?b) (settled_of ?b) p = Some t" "t < length (nodes ?b)"
    using w by (simp_all add: parent_of_same [of ?b st] settled_of_same [of ?b st] signal_abort_rest)
  from native_abort_returns [OF wf, of n r] obtain st3 where
    r: "native_abort st n r = Some st3" "run ?ts ?b = Some st3" "evolves ?b st3"
       "evolves st st3" "wf_state st3" by blast
  from r(3) have sr: "sigs_rel ?b st3" by (simp add: evolves_def)
  from run_calls_ListenCb [OF r(2) ts wb(1) rb(2)] rb(1)
  have 1: "(t, ?r) \<in> set (rejectLog st3)" by simp
  from reason_fixed_rel [OF sr rb(2)] rb(1) have 2: "sig_reason st3 sg = ?r" by simp
  from sig_aborted_rel [OF sr rb(3)] have 3: "sig_aborted st3 sg" .
  from run_calls_ListenCb_settles [OF r(2) ts wb] have 4: "underlying (nodes st3 ! t) \<noteq> Pending" .
  from r 1 2 3 4 show ?thesis by blast
qed

section \<open>listen\<close>

lemma sigs_addEventListener:
  "sigs (addEventListener st sg l once) =
     (sigs st)[sig_native st sg := (sigs st ! sig_native st sg)
        \<lparr>listeners := listeners (sigs st ! sig_native st sg) @ [(l, once)]\<rparr>]"
  by (simp add: addEventListener_def Let_def)

lemma addEventListener_rest [simp]:
  "timers (addEventListener st sg l once) = timers st"
  "next_timer (addEventListener st sg l once) = next_timer st"
  "rejectLog (addEventListener st sg l once) = rejectLog st"
  "abortLog (addEventListener st sg l once) = abortLog st"
  "next_obj (addEventListener st sg l once) = next_obj st"
  "length (sigs (addEventListener st sg l once)) = length (sigs st)"
  by (simp_all add: addEventListener_def Let_def)

lemma listeners_addEventListener:
  assumes "sig_native st sg < length (sigs st)"
  shows "listeners (sigs (addEventListener st sg l once) ! m) =
           (if m = sig_native st sg then listeners (sigs st ! m) @ [(l, once)]
            else listeners (sigs st ! m))"
  using assms by (simp add: sigs_addEventListener)

lemma flags_addEventListener:
  "fired (sigs (addEventListener st sg l once) ! m) = fired (sigs st ! m)"
  "freason (sigs (addEventListener st sg l once) ! m) = freason (sigs st ! m)"
  "own_aborted (sigs (addEventListener st sg l once) ! m) = own_aborted (sigs st ! m)"
  "own_reason (sigs (addEventListener st sg l once) ! m) = own_reason (sigs st ! m)"
  by (simp_all add: sigs_addEventListener nth_list_update_field [where g = fired]
        nth_list_update_field [where g = freason] nth_list_update_field [where g = own_aborted]
        nth_list_update_field [where g = own_reason])

lemma sig_native_addEventListener [simp]:
  "sig_native (addEventListener st sg l once) sg' = sig_native st sg'"
  by (rule sig_native_same) simp

lemma sig_aborted_addEventListener [simp]:
  "sig_aborted (addEventListener st sg l once) sg' = sig_aborted st sg'"
  by (simp add: sig_aborted_def Let_def flags_addEventListener
        sig_native_same [of "addEventListener st sg l once" st] split: option.splits)

lemma sig_reason_addEventListener [simp]:
  "sig_reason (addEventListener st sg l once) sg' = sig_reason st sg'"
  by (simp add: sig_reason_def Let_def flags_addEventListener
        sig_native_same [of "addEventListener st sg l once" st] split: option.splits)


lemma bind_signal_simps [simp]:
  "sigs (bind_signal st p sg) = sigs st" "pluses (bind_signal st p sg) = pluses st"
  "length (nodes (bind_signal st p sg)) = length (nodes st)"
  "parent_of (bind_signal st p sg) = parent_of st"
  "settled_of (bind_signal st p sg) = settled_of st"
  "rejectLog (bind_signal st p sg) = rejectLog st"
  by (simp_all add: bind_signal_def parent_of_def settled_of_def fun_eq_iff
        nth_list_update_field [where g = parent] nth_list_update_field [where g = isSettled])



lemma sig_native_bind_signal [simp]: "sig_native (bind_signal st p sg) sg' = sig_native st sg'"
  by (rule sig_native_same) simp




section \<open>Aborting a controller\<close>

lemma translate_fst: "fst (translate st r) = (if isTimeoutError r then timeout_error (next_obj st) else r)"
  by (simp add: translate_def new_TimeoutError_def timeout_error_def)

lemma default_reason_fst:
  "fst (default_reason st r) = (if nullish r then abort_error (next_obj st) else r)"
  by (simp add: default_reason_def new_AbortError_def abort_error_def)

lemma translate_rest [simp]:
  "abortLog (snd (translate st r)) = abortLog st" "rejectLog (snd (translate st r)) = rejectLog st"
  by (simp_all add: translate_def new_TimeoutError_def)

lemma evolves_same_but_obj:
  "evolves st (st\<lparr>next_obj := next_obj st + k\<rparr>)"
  by (simp add: evolves_def nodes_rel_same sigs_rel_same logs_rel_def filter_True_ex timer_rel_same)

lemma props_okD:
  assumes "props_ok st" "n < length (sigs st)"
  shows "own_aborted (sigs st ! n) \<noteq> Some False"
    and "own_aborted (sigs st ! n) = None \<Longrightarrow> own_reason (sigs st ! n) = None"
proof -
  from assms(2) have "sigs st ! n \<in> set (sigs st)" by simp
  with assms(1) show "own_aborted (sigs st ! n) \<noteq> Some False"
    and "own_aborted (sigs st ! n) = None \<Longrightarrow> own_reason (sigs st ! n) = None"
    unfolding props_ok_def by blast+
qed

lemma fired_sig_aborted:
  assumes "props_ok st" "sig_native st sg < length (sigs st)" "fired (sigs st ! sig_native st sg)"
  shows "sig_aborted st sg"
  using props_okD(1) [OF assms(1,2)] assms(3)
  by (cases "own_aborted (sigs st ! sig_native st sg)") (auto simp: sig_aborted_def Let_def)

lemma pluses_okD: "pluses_ok st \<Longrightarrow> s < length (pluses st) \<Longrightarrow> nsignal (pluses st ! s) < length (sigs st)"
  by (simp add: pluses_ok_def)

text \<open>\<open>AbortControllerPlus.abort\<close> leaves the signal aborted.\<close>

lemma controller_abort_aborts:
  assumes wf: "wf_state st" and s: "s < length (pluses st)"
  shows "\<exists>st'. controller_abort st s r = Some st' \<and> wf_state st' \<and> evolves st st' \<and>
           (\<exists>e. abortLog st' = abortLog st @ (s, r) # e) \<and> sig_aborted st' (Plus s) \<and>
           (\<not> sig_aborted st (Plus s) \<longrightarrow>
              sig_reason st' (Plus s) = (if nullish r then abort_error (next_obj st) else r))"
proof -
  let ?n = "nsignal (pluses st ! s)"
  let ?l = "st\<lparr>abortLog := abortLog st @ [(s, r)]\<rparr>"
  let ?d = "snd (default_reason ?l r)"
  let ?r = "fst (default_reason ?l r)"
  let ?a = "snd (controller_abort_step st s r)"
  from wf have po: "pluses_ok st" and pr: "props_ok st" by (simp_all add: wf_state_def)
  from pluses_okD [OF po s] have n: "?n < length (sigs st)" .
  have sd: "sigs ?d = sigs st" "pluses ?d = pluses st"
    by (simp_all add: default_reason_def new_AbortError_def)
  have a: "?a = snd (signal_abort ?d ?n ?r)"
    by (simp add: controller_abort_step_def split_beta sd)
  have rr: "?r = (if nullish r then abort_error (next_obj st) else r)"
    by (simp add: default_reason_fst)
  from controller_abort_returns [OF wf, of s r] obtain st' where
    c: "controller_abort st s r = Some st'" "evolves ?a st'" "evolves st st'" "wf_state st'"
       "\<exists>e. abortLog st' = abortLog st @ (s, r) # e" by blast
  from c(2) have sr: "sigs_rel ?a st'" by (simp add: evolves_def)
  have na: "sig_native ?a (Plus s) = ?n" by (simp add: sig_native_def)
  have fa: "fired (sigs ?a ! ?n)"
    unfolding a using n by (intro signal_abort_fired) (simp add: sd)
  from wf evolves_controller_abort_step [of st s r] have "wf_state ?a" by (rule wf_evolves)
  then have pa: "props_ok ?a" by (simp add: wf_state_def)
  have la: "?n < length (sigs ?a)"
    using n evolves_controller_abort_step [of st s r] by (simp add: evolves_def sigs_rel_def)
  have "sig_aborted ?a (Plus s)"
    using pa la fa by (intro fired_sig_aborted) (simp_all add: na)
  from sig_aborted_rel [OF sr this] have 1: "sig_aborted st' (Plus s)" .
  have 2: "sig_reason st' (Plus s) = (if nullish r then abort_error (next_obj st) else r)"
    if un: "\<not> sig_aborted st (Plus s)"
  proof -
    from un have "\<not> (case own_aborted (sigs st ! ?n) of Some b \<Rightarrow> b | None \<Rightarrow> fired (sigs st ! ?n))"
      by (simp add: sig_aborted_def sig_native_def Let_def)
    from unaborted_unfired [OF pr n this]
    have u: "\<not> fired (sigs st ! ?n)" "own_reason (sigs st ! ?n) = None" by simp_all
    have "?n < length (sigs ?d)" "\<not> fired (sigs ?d ! ?n)" using n u(1) by (simp_all add: sd)
    from signal_abort_fires(2) [OF this, of ?r] n
    have "sigs ?a ! ?n = (sigs st ! ?n)\<lparr>fired := True, freason := ?r,
            listeners := filter (\<lambda>(l, once). \<not> once) (listeners (sigs st ! ?n))\<rparr>"
      unfolding a by (simp add: sd)
    then have "sig_reason ?a (Plus s) = ?r" "reason_fixed ?a (Plus s)"
      by (simp_all add: sig_reason_def reason_fixed_def Let_def na u(2))
    from reason_fixed_rel [OF sr this(2)] this(1) rr show ?thesis by simp
  qed
  from c 1 2 show ?thesis by blast
qed

section \<open>Signals that depend on signals\<close>


lemma listen_signal_aborted:
  "sig_aborted st sg \<Longrightarrow>
   listen_signal st s sg =
     (case controller_abort (snd (translate st (sig_reason st sg))) s (fst (translate st (sig_reason st sg)))
      of None \<Rightarrow> None | Some st2 \<Rightarrow> Some (st2, True))"
  by (simp add: listen_signal_def split_beta)

lemma listen_signal_unaborted:
  "\<not> sig_aborted st sg \<Longrightarrow>
   listen_signal st s sg = Some (addEventListener st sg (ForwardCb s sg) True, False)"
  by (simp add: listen_signal_def)

lemma next_obj_translate:
  "next_obj (snd (translate st r)) = (if isTimeoutError r then next_obj st + 1 else next_obj st)"
  by (simp add: translate_def new_TimeoutError_def)

lemma isTimeoutError_not_nullish: "isTimeoutError r \<Longrightarrow> \<not> nullish r"
  by (auto simp: isTimeoutError_def nullish_def)

lemma timeout_error_not_nullish [simp]: "\<not> nullish (timeout_error i)"
  by (simp add: timeout_error_def nullish_def)

text \<open>\<open>_listen\<close> with a source that is aborted.\<close>

lemma listen_signal_aborts:
  assumes wf: "wf_state st" and s: "s < length (pluses st)" and ab: "sig_aborted st sg"
  shows "\<exists>st'. listen_signal st s sg = Some (st', True) \<and> wf_state st' \<and> evolves st st' \<and>
           (\<exists>e. abortLog st' = abortLog st @
                   (s, if isTimeoutError (sig_reason st sg) then timeout_error (next_obj st)
                       else sig_reason st sg) # e) \<and>
           sig_aborted st' (Plus s) \<and>
           (\<not> sig_aborted st (Plus s) \<longrightarrow> \<not> nullish (sig_reason st sg) \<longrightarrow>
              sig_reason st' (Plus s) =
                (if isTimeoutError (sig_reason st sg) then timeout_error (next_obj st)
                 else sig_reason st sg))"
proof -
  let ?t = "snd (translate st (sig_reason st sg))"
  let ?r = "fst (translate st (sig_reason st sg))"
  have rr: "?r = (if isTimeoutError (sig_reason st sg) then timeout_error (next_obj st)
                  else sig_reason st sg)" by (rule translate_fst)
  have et: "evolves st ?t" by (rule evolves_translate)
  with wf have wt: "wf_state ?t" by (rule wf_evolves)
  have st: "s < length (pluses ?t)" using s by simp
  from controller_abort_aborts [OF wt st, of ?r] obtain st' where
    c: "controller_abort ?t s ?r = Some st'" "wf_state st'" "evolves ?t st'"
       "\<exists>e. abortLog st' = abortLog ?t @ (s, ?r) # e" "sig_aborted st' (Plus s)"
       "\<not> sig_aborted ?t (Plus s) \<longrightarrow>
          sig_reason st' (Plus s) = (if nullish ?r then abort_error (next_obj ?t) else ?r)"
    by blast
  have 1: "listen_signal st s sg = Some (st', True)"
    using c(1) by (simp add: listen_signal_aborted [OF ab])
  have 2: "evolves st st'" using et c(3) by (rule evolves_trans)
  have 3: "\<exists>e. abortLog st' = abortLog st @ (s, ?r) # e" using c(4) by simp
  have 4: "\<not> sig_aborted st (Plus s) \<longrightarrow> \<not> nullish (sig_reason st sg) \<longrightarrow>
             sig_reason st' (Plus s) = ?r"
  proof (intro impI)
    assume un: "\<not> sig_aborted st (Plus s)" and nn: "\<not> nullish (sig_reason st sg)"
    have "sig_aborted ?t (Plus s) = sig_aborted st (Plus s)" by (rule sig_aborted_same) simp_all
    with un c(6) have "sig_reason st' (Plus s) = (if nullish ?r then abort_error (next_obj ?t) else ?r)"
      by simp
    moreover have "\<not> nullish ?r" using nn by (simp add: rr)
    ultimately show "sig_reason st' (Plus s) = ?r" by simp
  qed
  from 1 c(2) 2 3 c(5) 4 show ?thesis unfolding rr by blast
qed




section \<open>any\<close>

lemma registered_Nil [simp]: "registered st s [] = st"
  by (simp add: registered_def)

lemma registered_Cons:
  "registered st s (sg # sgs) = registered (addEventListener st sg (ForwardCb s sg) True) s sgs"
  by (simp add: registered_def)

lemma registered_snoc:
  "registered st s (sgs @ [sg]) = addEventListener (registered st s sgs) sg (ForwardCb s sg) True"
  by (simp add: registered_def)

lemma registered_rest [simp]:
  "nodes (registered st s sgs) = nodes st" "pluses (registered st s sgs) = pluses st"
  "timers (registered st s sgs) = timers st" "next_timer (registered st s sgs) = next_timer st"
  "rejectLog (registered st s sgs) = rejectLog st" "abortLog (registered st s sgs) = abortLog st"
  "next_obj (registered st s sgs) = next_obj st"
  "length (sigs (registered st s sgs)) = length (sigs st)"
  by (induction sgs rule: rev_induct) (simp_all add: registered_snoc)

lemma registered_sig [simp]:
  "sig_native (registered st s sgs) sg = sig_native st sg"
  "sig_aborted (registered st s sgs) sg = sig_aborted st sg"
  "sig_reason (registered st s sgs) sg = sig_reason st sg"
  by (induction sgs rule: rev_induct) (simp_all add: registered_snoc)

lemma wf_registered: "wf_state st \<Longrightarrow> wf_state (registered st s sgs)"
proof (induction sgs rule: rev_induct)
  case Nil
  then show ?case by simp
next
  case (snoc sg sgs)
  then have "wf_state (registered st s sgs)" by simp
  then show ?case
    unfolding registered_snoc by (rule wf_addEventListener) (simp add: task_ok_def)
qed

lemma listeners_registered:
  assumes "\<forall>sg \<in> set sgs. sig_native st sg < length (sigs st)"
  shows "listeners (sigs (registered st s sgs) ! n) =
           listeners (sigs st ! n) @
           map (\<lambda>sg. (ForwardCb s sg, True)) (filter (\<lambda>sg. sig_native st sg = n) sgs)"
  using assms
proof (induction sgs rule: rev_induct)
  case Nil
  then show ?case by simp
next
  case (snoc sg sgs)
  let ?r = "registered st s sgs"
  from snoc.prems have "sig_native ?r sg < length (sigs ?r)" by simp
  note a = listeners_addEventListener [OF this, of "ForwardCb s sg" True n]
  from snoc have ih: "listeners (sigs ?r ! n) =
           listeners (sigs st ! n) @
           map (\<lambda>sg. (ForwardCb s sg, True)) (filter (\<lambda>sg. sig_native st sg = n) sgs)" by simp
  show ?case
  proof (cases "n = sig_native st sg")
    case True
    with a ih show ?thesis by (simp add: registered_snoc)
  next
    case False
    with a ih show ?thesis by (auto simp: registered_snoc)
  qed
qed

lemma any_signal_unaborted:
  assumes "\<forall>sg \<in> set pre. \<not> sig_aborted st sg"
  shows "any_signal st s (pre @ rest) = any_signal (registered st s pre) s rest"
  using assms
proof (induction pre arbitrary: st)
  case Nil
  then show ?case by simp
next
  case (Cons sg pre)
  let ?a = "addEventListener st sg (ForwardCb s sg) True"
  from Cons.prems have "\<not> sig_aborted st sg" by simp
  then have "any_signal st s ((sg # pre) @ rest) = any_signal ?a s (pre @ rest)"
    by (simp add: listen_signal_unaborted)
  moreover from Cons.prems have "\<forall>x \<in> set pre. \<not> sig_aborted ?a x" by simp
  ultimately show ?case using Cons.IH [of ?a] by (simp add: registered_Cons)
qed

lemma any_signal_aborted_head:
  "sig_aborted st a \<Longrightarrow> any_signal st s (a # post) = one st s a"
  by (auto simp: one_def listen_signal_aborted split: option.splits)

section \<open>abort on a bound node\<close>

lemma evolves_doAbort_default:
  "evolves st (raw_reject (snd (default_reason st r0)) t (fst (default_reason st r0)))"
  by (rule evolves_trans [OF evolves_default_reason evolves_raw_reject])

lemma abortLog_raw_reject_default [simp]:
  "abortLog (raw_reject (snd (default_reason st r0)) t r) = abortLog st"
  "sigs (raw_reject (snd (default_reason st r0)) t r) = sigs st"
  "pluses (raw_reject (snd (default_reason st r0)) t r) = pluses st"
  by (simp_all add: raw_reject_def Let_def default_reason_def new_AbortError_def)

lemma rejectLog_raw_reject_default:
  "rejectLog (raw_reject (snd (default_reason st r0)) t r) = rejectLog st @ [(t, r)]"
  by (simp add: raw_reject_def Let_def default_reason_def new_AbortError_def)

text \<open>\<open>abort\<close> on a node bound to an \<open>AbortSignalPlus\<close>.\<close>

lemma abort_Plus:
  assumes wf: "wf_state st" and w: "walk (parent_of st) (settled_of st) p = Some t"
    and b: "signal (nodes st ! p) = Some (Plus s)" and s: "s < length (pluses st)"
  shows "\<exists>st'. abort st p r0 = Some (Returned st') \<and> wf_state st' \<and> evolves st st' \<and>
           (\<exists>e. rejectLog st' = rejectLog st @ (t, fst (default_reason st r0)) # e) \<and>
           (\<exists>e. abortLog st' = abortLog st @ (s, fst (default_reason st r0)) # e) \<and>
           sig_aborted st' (Plus s) \<and>
           (\<not> sig_aborted st (Plus s) \<longrightarrow> sig_reason st' (Plus s) = fst (default_reason st r0))"
proof -
  let ?r = "fst (default_reason st r0)"
  let ?st1 = "raw_reject (snd (default_reason st r0)) t ?r"
  have e1: "evolves st ?st1" by (rule evolves_doAbort_default)
  with wf have w1: "wf_state ?st1" by (rule wf_evolves)
  have s1: "s < length (pluses ?st1)" using s by simp
  have nn: "\<not> nullish ?r" by (simp add: default_reason_fst abort_error_def nullish_def)
  from controller_abort_aborts [OF w1 s1, of ?r] obtain st' where
    c: "controller_abort ?st1 s ?r = Some st'" "wf_state st'" "evolves ?st1 st'"
       "\<exists>e. abortLog st' = abortLog ?st1 @ (s, ?r) # e" "sig_aborted st' (Plus s)"
       "\<not> sig_aborted ?st1 (Plus s) \<longrightarrow>
          sig_reason st' (Plus s) = (if nullish ?r then abort_error (next_obj ?st1) else ?r)"
    by blast
  have 1: "abort st p r0 = Some (Returned st')"
    using b c(1) by (simp add: abort_unfold [OF w] Let_def)
  from c(3) obtain e where "rejectLog st' = rejectLog ?st1 @ e"
    by (auto simp: evolves_def logs_rel_def)
  then have 2: "\<exists>e. rejectLog st' = rejectLog st @ (t, ?r) # e"
    by (simp add: rejectLog_raw_reject_default)
  from c(4) have 3: "\<exists>e. abortLog st' = abortLog st @ (s, ?r) # e" by simp
  have "sig_aborted ?st1 (Plus s) = sig_aborted st (Plus s)" by (rule sig_aborted_same) simp_all
  with c(6) nn have 4: "\<not> sig_aborted st (Plus s) \<longrightarrow> sig_reason st' (Plus s) = ?r" by simp
  from 1 c(2) evolves_trans [OF e1 c(3)] 2 3 c(5) 4 show ?thesis by blast
qed

lemma wf_sigs_update:
  assumes wf: "wf_state st" and n: "n < length (sigs st)"
    and l: "set (listeners v) \<subseteq> set (listeners (sigs st ! n))"
    and a: "own_aborted v \<noteq> Some False" "own_aborted v = None \<longrightarrow> own_reason v = None"
  shows "wf_state (st\<lparr>sigs := (sigs st)[n := v]\<rparr>)"
proof -
  let ?b = "st\<lparr>sigs := (sigs st)[n := v]\<rparr>"
  from wf have c: "chain_ok ?b" by (simp add: wf_state_def chain_ok_def parent_of_def)
  have lo: "listeners_ok ?b"
  proof (rule listeners_okI)
    fix m p sg once
    assume m: "m < length (sigs ?b)" and i: "(ListenCb p sg, once) \<in> set (listeners (sigs ?b ! m))"
    from m have m': "m < length (sigs st)" by simp
    from i l m' n have "(ListenCb p sg, once) \<in> set (listeners (sigs st ! m))"
      by (cases "m = n") auto
    with wf m' have "p < length (nodes st)" by (auto simp: wf_state_def dest: listeners_okD)
    then show "p < length (nodes ?b)" by simp
  qed
  have pr: "props_ok ?b"
    unfolding props_ok_def
  proof (intro ballI)
    fix x assume "x \<in> set (sigs ?b)"
    then obtain m where m: "m < length (sigs st)" "x = (sigs st)[n := v] ! m"
      by (auto simp: in_set_conv_nth)
    show "own_aborted x \<noteq> Some False \<and> (own_aborted x = None \<longrightarrow> own_reason x = None)"
    proof (cases "m = n")
      case True
      with m n a show ?thesis by simp
    next
      case False
      with m have "x = sigs st ! m" by simp
      with wf m(1) show ?thesis
        using props_okD [of st m] by (auto simp: wf_state_def)
    qed
  qed
  from wf have pl: "pluses_ok ?b" by (simp add: wf_state_def pluses_ok_def)
  from c lo pr pl show ?thesis by (simp add: wf_state_def)
qed

lemma defineProperty_simps [simp]:
  "defineProperty None v = Inr (Some v)"
  "defineProperty (Some v) v = Inr (Some v)"
  "c \<noteq> v \<Longrightarrow> defineProperty (Some c) v = Inl TypeError"
  by (simp_all add: defineProperty_def)

text \<open>\<open>abort\<close> on a node bound to a native signal.\<close>

lemma abort_Native:
  assumes wf: "wf_state st" and w: "walk (parent_of st) (settled_of st) p = Some t"
    and b: "signal (nodes st ! p) = Some (Native n)" and n: "n < length (sigs st)"
    and o: "own_reason (sigs st ! n) = None \<or> own_reason (sigs st ! n) = Some (fst (default_reason st r0))"
  shows "\<exists>st'. abort st p r0 = Some (Returned st') \<and> wf_state st' \<and> nodes_rel st st' \<and>
           own_aborted (sigs st' ! n) = Some True \<and>
           own_reason (sigs st' ! n) = Some (fst (default_reason st r0)) \<and>
           (\<forall>l once. (l, once) \<in> set (listeners (sigs st' ! n)) \<longrightarrow>
                     (l, once) \<in> set (listeners (sigs st ! n)) \<and> \<not> once) \<and>
           (\<exists>e. rejectLog st' = rejectLog st @ (t, fst (default_reason st r0)) # e) \<and>
           (\<forall>p' sg' once t'. (ListenCb p' sg', once) \<in> set (listeners (sigs st ! n)) \<longrightarrow>
                sig_native st sg' = n \<longrightarrow> walk (parent_of st) (settled_of st) p' = Some t' \<longrightarrow>
                (t', fst (default_reason st r0)) \<in> set (rejectLog st'))"
proof -
  let ?r = "fst (default_reason st r0)"
  let ?st1 = "raw_reject (snd (default_reason st r0)) t ?r"
  let ?x = "sigs st ! n"
  let ?v3 = "?x\<lparr>own_aborted := Some True, own_reason := Some ?r\<rparr>"
  let ?st3 = "?st1\<lparr>sigs := (sigs st)[n := ?v3]\<rparr>"
  let ?v4 = "?v3\<lparr>listeners := filter (\<lambda>(l, once). \<not> once) (listeners ?x)\<rparr>"
  let ?st4 = "?st1\<lparr>sigs := (sigs st)[n := ?v4]\<rparr>"
  let ?ts = "map (\<lambda>(l, once). Call l) (listeners ?x)"
  from wf have pr: "props_ok st" and lo: "listeners_ok st" by (simp_all add: wf_state_def)
  from props_okD(1) [OF pr n] have oa: "own_aborted ?x = None \<or> own_aborted ?x = Some True"
    by (cases "own_aborted ?x") auto
  have e1: "evolves st ?st1" by (rule evolves_doAbort_default)
  with wf have w1: "wf_state ?st1" by (rule wf_evolves)
  have d1: "defineProperty (own_aborted ?x) True = Inr (Some True)" using oa by auto
  have d2: "defineProperty (own_reason ?x) ?r = Inr (Some ?r)" using o by auto
  have d: "dispatchEvent ?st3 n = (?ts, ?st4)"
    using n by (simp add: dispatchEvent_def Let_def)
  have ab: "abort st p r0 = (case run ?ts ?st4 of None \<Rightarrow> None | Some st5 \<Rightarrow> Some (Returned st5))"
    using b n by (simp add: abort_unfold [OF w] Let_def d1 d2 d)
  have w4: "wf_state ?st4"
    using w1 n by (intro wf_sigs_update [of ?st1 n ?v4, simplified]) auto
  have tk: "\<forall>u \<in> set ?ts. task_ok ?st4 u"
  proof
    fix u assume "u \<in> set ?ts"
    then obtain l once where "(l, once) \<in> set (listeners ?x)" "u = Call l" by auto
    moreover from n have "?x \<in> set (sigs st)" by simp
    ultimately have "task_ok st u" using lo unfolding listeners_ok_def by blast
    moreover have "length (nodes ?st4) = length (nodes st)"
      using e1 by (simp add: evolves_def nodes_rel_def)
    ultimately show "task_ok ?st4 u" by (simp add: task_ok_same [of ?st4 st])
  qed
  from run_returns [OF w4 tk] obtain st' where
    r: "run ?ts ?st4 = Some st'" "evolves ?st4 st'" "wf_state st'" by blast
  from r(1) ab have 1: "abort st p r0 = Some (Returned st')" by simp
  have n14: "nodes_rel ?st1 ?st4" by (rule nodes_rel_same) simp
  from e1 have "nodes_rel st ?st1" by (simp add: evolves_def)
  from nodes_rel_trans [OF nodes_rel_trans [OF this n14]] r(2)
  have 2: "nodes_rel st st'" by (simp add: evolves_def)
  from r(2) have sr: "sigs_rel ?st4 st'" by (simp add: evolves_def)
  have s4: "sigs ?st4 ! n = ?v4" using n by simp
  from sr s4 have 3: "own_aborted (sigs st' ! n) = Some True" "own_reason (sigs st' ! n) = Some ?r"
    by (simp_all add: sigs_rel_def)
  from sr obtain P where "listeners (sigs st' ! n) = filter P (listeners (sigs ?st4 ! n))"
    unfolding sigs_rel_def by blast
  with s4 have 4: "\<forall>l once. (l, once) \<in> set (listeners (sigs st' ! n)) \<longrightarrow>
                     (l, once) \<in> set (listeners ?x) \<and> \<not> once" by auto
  from r(2) obtain e where "rejectLog st' = rejectLog ?st4 @ e"
    by (auto simp: evolves_def logs_rel_def)
  then have 5: "\<exists>e. rejectLog st' = rejectLog st @ (t, ?r) # e"
    by (simp add: rejectLog_raw_reject_default)
  have 6: "\<forall>p' sg' once t'. (ListenCb p' sg', once) \<in> set (listeners ?x) \<longrightarrow>
                sig_native st sg' = n \<longrightarrow> walk (parent_of st) (settled_of st) p' = Some t' \<longrightarrow>
                (t', ?r) \<in> set (rejectLog st')"
  proof (intro allI impI)
    fix p' sg' once t'
    assume i: "(ListenCb p' sg', once) \<in> set (listeners ?x)" and sn: "sig_native st sg' = n"
      and w': "walk (parent_of st) (settled_of st) p' = Some t'"
    from i have ts: "Call (ListenCb p' sg') \<in> set ?ts"
      by (auto simp: image_iff intro!: bexI [of _ "(ListenCb p' sg', once)"])
    from 2 [unfolded nodes_rel_def] nodes_rel_trans [OF \<open>nodes_rel st ?st1\<close> n14]
    have w4': "walk (parent_of ?st4) (settled_of ?st4) p' = Some t'"
      using w' by (simp add: nodes_rel_def)
    have n4: "sig_native ?st4 sg' = n"
      unfolding sn [symmetric] by (rule sig_native_same) simp
    have rf: "reason_fixed ?st4 sg'" "sig_reason ?st4 sg' = ?r"
      using n by (simp_all add: reason_fixed_def sig_reason_def Let_def n4)
    from run_calls_ListenCb [OF r(1) ts w4' rf(1)] rf(2)
    show "(t', ?r) \<in> set (rejectLog st')" by simp
  qed
  from 1 r(3) 2 3 4 5 6 show ?thesis by blast
qed

lemma abort_Native_throws:
  assumes wf: "wf_state st" and w: "walk (parent_of st) (settled_of st) p = Some t"
    and b: "signal (nodes st ! p) = Some (Native n)" and n: "n < length (sigs st)"
    and o: "own_reason (sigs st ! n) = Some c" "c \<noteq> fst (default_reason st r0)"
  shows "\<exists>st'. abort st p r0 = Some (Thrown TypeError st') \<and> nodes_rel st st'"
proof -
  let ?r = "fst (default_reason st r0)"
  let ?st1 = "raw_reject (snd (default_reason st r0)) t ?r"
  let ?x = "sigs st ! n"
  from wf have pr: "props_ok st" by (simp add: wf_state_def)
  from props_okD [OF pr n] o(1) have oa: "own_aborted ?x = Some True"
    by (cases "own_aborted ?x") auto
  let ?st2 = "?st1\<lparr>sigs := (sigs st)[n := ?x\<lparr>own_aborted := Some True\<rparr>]\<rparr>"
  have "abort st p r0 = Some (Thrown TypeError ?st2)"
    using b n o oa by (simp add: abort_unfold [OF w] Let_def)
  moreover have "nodes_rel st ?st1" using evolves_doAbort_default [of st r0 t] by (simp add: evolves_def)
  then have "nodes_rel st ?st2"
    by (rule nodes_rel_trans) (rule nodes_rel_same, simp)
  ultimately show ?thesis by blast
qed

text \<open>
  \<open>abort\<close> returns unless the bound signal is a native one with an own \<open>reason\<close> that
  differs; returning or throwing, it changes no outcome that was settled.
\<close>

lemma abort_outcome:
  assumes wf: "wf_state st" and b: "bound_ok st p"
  shows "\<exists>out. abort st p r0 = Some out \<and> nodes_rel st (outcome_state out) \<and>
           ((\<forall>n. signal (nodes st ! p) \<noteq> Some (Native n)) \<longrightarrow> (\<exists>st'. out = Returned st'))"
proof -
  from wf have "chain_ok st" by (simp add: wf_state_def)
  moreover from b have p: "p < length (nodes st)" by (simp add: bound_ok_def)
  ultimately obtain t where w: "walk (parent_of st) (settled_of st) p = Some t"
    using doAbort_total by blast
  show ?thesis
  proof (cases "signal (nodes st ! p)")
    case None
    have "nodes_rel st (raw_reject (snd (default_reason st r0)) t (fst (default_reason st r0)))"
      using evolves_doAbort_default [of st r0 t] by (simp add: evolves_def)
    then show ?thesis by (simp add: abort_unbound [OF w None] outcome_state_def)
  next
    case (Some sg)
    with b have ok: "sig_ok st sg" by (simp add: bound_ok_def)
    show ?thesis
    proof (cases sg)
      case (Plus s)
      with ok have s: "s < length (pluses st)" by (simp add: sig_ok_def)
      from abort_Plus [OF wf w Some [unfolded Plus] s, of r0] obtain st' where
        "abort st p r0 = Some (Returned st')" "evolves st st'" by blast
      then show ?thesis by (simp add: outcome_state_def evolves_def)
    next
      case (Native n)
      with ok have n: "n < length (sigs st)" by (simp add: sig_ok_def)
      note bn = Some [unfolded Native]
      show ?thesis
      proof (cases "own_reason (sigs st ! n) = None \<or>
                    own_reason (sigs st ! n) = Some (fst (default_reason st r0))")
        case True
        from abort_Native [OF wf w bn n True] obtain st' where
          "abort st p r0 = Some (Returned st')" "nodes_rel st st'" by blast
        then show ?thesis by (simp add: outcome_state_def)
      next
        case False
        then obtain c where "own_reason (sigs st ! n) = Some c" "c \<noteq> fst (default_reason st r0)"
          by (cases "own_reason (sigs st ! n)") auto
        from abort_Native_throws [OF wf w bn n this] obtain st' where
          "abort st p r0 = Some (Thrown TypeError st')" "nodes_rel st st'" by blast
        then show ?thesis by (simp add: outcome_state_def bn)
      qed
    qed
  qed
qed

section \<open>Timers\<close>

lemma signal_abort_dispatch:
  assumes "n < length (sigs st)"
  shows "sigs (snd (signal_abort st m r)) ! n = sigs st ! n \<or>
         (\<not> fired (sigs st ! n) \<and> fired (sigs (snd (signal_abort st m r)) ! n) \<and>
          (\<forall>(l, once) \<in> set (listeners (sigs st ! n)). Call l \<in> set (fst (signal_abort st m r))))"
proof (cases "m = n \<and> \<not> fired (sigs st ! n)")
  case True
  with assms show ?thesis
    by (auto simp: signal_abort_def dispatchEvent_def Let_def intro: rev_image_eqI)
next
  case False
  have "sigs (snd (signal_abort st m r)) ! n = sigs st ! n"
  proof (cases "m = n")
    case True
    with False show ?thesis by (simp add: signal_abort_def)
  next
    case False
    then show ?thesis by (simp add: signal_abort_def dispatchEvent_def Let_def)
  qed
  then show ?thesis by simp
qed

lemma controller_abort_step_dispatch:
  assumes "n < length (sigs st)"
  shows "sigs (snd (controller_abort_step st s r)) ! n = sigs st ! n \<or>
         (\<not> fired (sigs st ! n) \<and> fired (sigs (snd (controller_abort_step st s r)) ! n) \<and>
          (\<forall>(l, once) \<in> set (listeners (sigs st ! n)).
              Call l \<in> set (fst (controller_abort_step st s r))))"
proof -
  let ?d = "snd (default_reason (st\<lparr>abortLog := abortLog st @ [(s, r)]\<rparr>) r)"
  have sd: "sigs ?d = sigs st" by (simp add: default_reason_def new_AbortError_def)
  have c: "controller_abort_step st s r =
             signal_abort ?d (nsignal (pluses ?d ! s))
               (fst (default_reason (st\<lparr>abortLog := abortLog st @ [(s, r)]\<rparr>) r))"
    by (simp add: controller_abort_step_def split_beta)
  from assms have "n < length (sigs ?d)" by (simp add: sd)
  from signal_abort_dispatch [OF this] show ?thesis unfolding c sd .
qed

lemma exec_dispatch:
  assumes e: "exec u st = Some (new, st1)" and n: "n < length (sigs st)"
  shows "sigs st1 ! n = sigs st ! n \<or>
         (\<not> fired (sigs st ! n) \<and> fired (sigs st1 ! n) \<and>
          (\<forall>(l, once) \<in> set (listeners (sigs st ! n)). Call l \<in> set new))"
proof (cases u)
  case (Call l)
  show ?thesis
  proof (cases l)
    case (ListenCb p sg)
    with e Call have "sigs st1 = sigs st"
      by (auto simp: doAbort_def raw_reject_def Let_def split: option.splits)
    then show ?thesis by simp
  next
    case (TimeoutAbortCb s)
    with e Call have "sigs st1 = sigs st"
      by (auto simp: clear_timer_fields_def clearTimeout_def split: option.splits)
    then show ?thesis by simp
  next
    case (ForwardCb s sg)
    let ?t = "snd (translate st (sig_reason st sg))"
    have st: "sigs ?t = sigs st" by (simp add: translate_def new_TimeoutError_def)
    from e Call ForwardCb have
      "new = fst (controller_abort_step ?t s (fst (translate st (sig_reason st sg))))"
      "st1 = snd (controller_abort_step ?t s (fst (translate st (sig_reason st sg))))"
      by (auto simp: split_beta)
    moreover from n have "n < length (sigs ?t)" by (simp add: st)
    note controller_abort_step_dispatch [OF this, of s "fst (translate st (sig_reason st sg))"]
    ultimately show ?thesis unfolding st by simp
  next
    case (UserCb k)
    with e Call show ?thesis by simp
  qed
next
  case (ClearTimerFields s)
  with e have "sigs st1 = sigs st" by (auto simp: clear_timer_fields_def)
  then show ?thesis by simp
qed

lemma exec_clears:
  assumes "exec u st = Some (new, st1)" "u = Call (TimeoutAbortCb s) \<or> u = ClearTimerFields s"
    "s < length (pluses st)"
  shows "timer (pluses st1 ! s) = None"
  using assms by (auto simp: clear_timer_fields_def clearTimeout_def split: option.splits)

lemma pending_ok_step:
  assumes e: "exec u st = Some (new, st1)" and p: "pending_ok (u # us) st"
    and po: "pluses_ok st"
  shows "pending_ok (new @ us) st1"
  unfolding pending_ok_def
proof (intro allI impI)
  fix s assume "s < length (pluses st1)"
  note sr = exec_sigs_rel [OF e] and tr = exec_timer_rel [OF e]
  from sr \<open>s < length (pluses st1)\<close> have s: "s < length (pluses st)" by (simp add: sigs_rel_def)
  from sr have ns: "nsignal (pluses st1 ! s) = nsignal (pluses st ! s)" by (simp add: sigs_rel_def)
  from pluses_okD [OF po s] have n: "nsignal (pluses st ! s) < length (sigs st)" .
  let ?n = "nsignal (pluses st ! s)"
  from p s have "timer (pluses st ! s) = None \<or> Call (TimeoutAbortCb s) \<in> set (u # us) \<or>
        ClearTimerFields s \<in> set (u # us) \<or>
        (TimeoutAbortCb s, True) \<in> set (listeners (sigs st ! ?n))"
    by (simp add: pending_ok_def)
  then consider (none) "timer (pluses st ! s) = None"
    | (head) "u = Call (TimeoutAbortCb s) \<or> u = ClearTimerFields s"
    | (tail) "Call (TimeoutAbortCb s) \<in> set us \<or> ClearTimerFields s \<in> set us"
    | (reg) "(TimeoutAbortCb s, True) \<in> set (listeners (sigs st ! ?n))"
    by auto
  then show "timer (pluses st1 ! s) = None \<or> Call (TimeoutAbortCb s) \<in> set (new @ us) \<or>
        ClearTimerFields s \<in> set (new @ us) \<or>
        (TimeoutAbortCb s, True) \<in> set (listeners (sigs st1 ! nsignal (pluses st1 ! s)))"
  proof cases
    case none
    with tr [unfolded timer_rel_def, THEN spec, of s] have "timer (pluses st1 ! s) = None" by auto
    then show ?thesis by simp
  next
    case head
    from exec_clears [OF e head s] show ?thesis by simp
  next
    case tail
    then show ?thesis by auto
  next
    case reg
    from exec_dispatch [OF e n] reg show ?thesis unfolding ns by auto
  qed
qed

lemma run_pending_ok:
  "run ts st = Some st' \<Longrightarrow> pending_ok ts st \<Longrightarrow> pluses_ok st \<Longrightarrow> armed_ok st'"
proof (induction ts st rule: run.induct)
  case (1 st)
  then show ?case by (simp add: armed_ok_def)
next
  case (2 u us st)
  from "2.prems"(1) obtain new st1 where e: "exec u st = Some (new, st1)"
    and r: "run (new @ us) st1 = Some st'"
    by (auto split: option.splits)
  have p: "pending_ok (new @ us) st1" using e "2.prems"(2,3) by (rule pending_ok_step)
  from exec_sigs_rel [OF e] "2.prems"(3) have "pluses_ok st1"
    unfolding pluses_ok_def all_set_conv_all_nth by (simp add: sigs_rel_def)
  from "2.IH" [OF e HOL.refl r p this] show ?case .
qed

text \<open>
  A signal that fires while listeners run has its timer cleared by the end of the run,
  when the listener of \<open>timeout\<close> was registered on it or was to run.
\<close>

lemma run_fired_clears:
  "run ts st = Some st' \<Longrightarrow> s < length (pluses st) \<Longrightarrow> nsignal (pluses st ! s) < length (sigs st) \<Longrightarrow>
   timer (pluses st ! s) = None \<or> Call (TimeoutAbortCb s) \<in> set ts \<or> ClearTimerFields s \<in> set ts \<or>
     (\<not> fired (sigs st ! nsignal (pluses st ! s)) \<and>
      (TimeoutAbortCb s, True) \<in> set (listeners (sigs st ! nsignal (pluses st ! s)))) \<Longrightarrow>
   fired (sigs st' ! nsignal (pluses st ! s)) \<Longrightarrow> timer (pluses st' ! s) = None"
proof (induction ts st rule: run.induct)
  case (1 st)
  then show ?case by auto
next
  case (2 u us st)
  let ?n = "nsignal (pluses st ! s)"
  from "2.prems"(1) obtain new st1 where e: "exec u st = Some (new, st1)"
    and r: "run (new @ us) st1 = Some st'"
    by (auto split: option.splits)
  note sr = exec_sigs_rel [OF e] and tr = exec_timer_rel [OF e]
  from sr "2.prems"(2,3) have s1: "s < length (pluses st1)"
    and ns: "nsignal (pluses st1 ! s) = ?n" and n1: "?n < length (sigs st1)"
    by (simp_all add: sigs_rel_def)
  have "timer (pluses st1 ! s) = None \<or> Call (TimeoutAbortCb s) \<in> set (new @ us) \<or>
          ClearTimerFields s \<in> set (new @ us) \<or>
          (\<not> fired (sigs st1 ! ?n) \<and> (TimeoutAbortCb s, True) \<in> set (listeners (sigs st1 ! ?n)))"
  proof -
    from "2.prems"(4) consider (none) "timer (pluses st ! s) = None"
      | (head) "u = Call (TimeoutAbortCb s) \<or> u = ClearTimerFields s"
      | (tail) "Call (TimeoutAbortCb s) \<in> set us \<or> ClearTimerFields s \<in> set us"
      | (reg) "\<not> fired (sigs st ! ?n)" "(TimeoutAbortCb s, True) \<in> set (listeners (sigs st ! ?n))"
      by auto
    then show ?thesis
    proof cases
      case none
      with tr [unfolded timer_rel_def, THEN spec, of s] have "timer (pluses st1 ! s) = None" by auto
      then show ?thesis by simp
    next
      case head
      from exec_clears [OF e head "2.prems"(2)] show ?thesis by simp
    next
      case tail
      then show ?thesis by auto
    next
      case reg
      from exec_dispatch [OF e "2.prems"(3)] reg show ?thesis by auto
    qed
  qed
  with "2.IH" [OF e HOL.refl r s1] ns n1 "2.prems"(5) show ?case by simp
qed

lemma timers_of_unarmed:
  assumes "timers_ok st" "timer (pluses st ! s) = None"
  shows "timers_of st s = []"
  using assms by (auto simp: timers_ok_def timers_of_def filter_empty_conv)

lemma timers_of_le1:
  assumes "timers_ok st"
  shows "length (timers_of st s) \<le> 1"
proof (cases "timers_of st s")
  case Nil
  then show ?thesis by simp
next
  case (Cons x xs)
  obtain h due s' where x: "x = (h, due, s')" by (cases x)
  have d: "distinct (map fst (timers_of st s))"
    using assms by (simp add: timers_ok_def timers_of_def distinct_map_filter)
  have a: "\<forall>y \<in> set (timers_of st s). fst y = the (timer (pluses st ! s))"
    using assms by (auto simp: timers_ok_def timers_of_def)
  have "xs = []"
  proof (cases xs)
    case (Cons y ys)
    with \<open>timers_of st s = x # xs\<close> a have "fst x = fst y" by simp
    with d \<open>timers_of st s = x # xs\<close> Cons show ?thesis by simp
  qed simp
  with Cons show ?thesis by simp
qed

lemma pending_ok_same:
  "sigs b = sigs a \<Longrightarrow> pluses b = pluses a \<Longrightarrow> pending_ok ts b = pending_ok ts a"
  by (simp add: pending_ok_def)

lemma wf_state_same:
  assumes "nodes b = nodes a" "sigs b = sigs a" "pluses b = pluses a"
  shows "wf_state b = wf_state a"
proof -
  have "chain_ok b = chain_ok a" using assms(1) by (simp add: chain_ok_def parent_of_same [of b a])
  moreover have "listeners_ok b = listeners_ok a" using assms by (simp add: listeners_ok_same [of b a])
  moreover have "props_ok b = props_ok a" using assms by (simp add: props_ok_def)
  moreover have "pluses_ok b = pluses_ok a" using assms by (simp add: pluses_ok_def)
  ultimately show ?thesis by (simp add: wf_state_def)
qed

lemma timers_of_same: "timers b = timers a \<Longrightarrow> timers_of b s = timers_of a s"
  by (simp add: timers_of_def)

text \<open>
  A native signal is told to abort and the listeners run, with the tasks \<open>extra\<close> of the
  caller after them: the run returns, the timers are as they should be, and every
  \<open>AbortSignalPlus\<close> that has become aborted has no timer.
\<close>

lemma fire_signal:
  assumes wf: "wf_state st" and tk: "timers_ok st" and pe: "pending_ok extra st"
    and ex: "\<forall>t \<in> set extra. task_ok st t"
    and cl: "\<forall>s. ClearTimerFields s \<in> set extra \<longrightarrow> timers_of st s = []"
  shows "\<exists>st'. run (fst (signal_abort st m r) @ extra) (snd (signal_abort st m r)) = Some st' \<and>
           evolves st st' \<and> timers_inv st' \<and>
           (\<forall>s < length (pluses st). \<not> sig_aborted st (Plus s) \<longrightarrow> sig_aborted st' (Plus s) \<longrightarrow>
                timer (pluses st' ! s) = None)"
proof -
  let ?ts = "fst (signal_abort st m r)"
  let ?a = "snd (signal_abort st m r)"
  note rest = signal_abort_rest [of st m r]
  have ea: "evolves st ?a" by (rule evolves_signal_abort)
  with wf have wa: "wf_state ?a" by (rule wf_evolves)
  from wf have lo: "listeners_ok st" and po: "pluses_ok st" and pr: "props_ok st"
    by (simp_all add: wf_state_def)
  from wa have poa: "pluses_ok ?a" by (simp add: wf_state_def)
  have len: "length (sigs ?a) = length (sigs st)" using ea by (simp add: evolves_def sigs_rel_def)
  have tsk: "\<forall>u \<in> set (?ts @ extra). task_ok ?a u"
    using tasks_signal_abort [OF lo, of m r] ex by (auto simp: task_ok_same [of ?a st] rest)
  from run_returns [OF wa tsk] obtain st' where
    r: "run (?ts @ extra) ?a = Some st'" and e': "evolves ?a st'" and w': "wf_state st'" by blast
  have ev: "evolves st st'" using ea e' by (rule evolves_trans)
  have tka: "timers_ok ?a" using tk by (simp add: timers_ok_same [of ?a st] rest)
  have calls: "\<And>s. ClearTimerFields s \<notin> set ?ts"
    by (auto simp: signal_abort_def dispatchEvent_def Let_def)
  have cla: "\<forall>s. ClearTimerFields s \<in> set (?ts @ extra) \<longrightarrow> timers_of ?a s = []"
    using cl calls by (auto simp: timers_of_same [of ?a st] rest)
  from run_timers_ok [OF r tka cla] have tk': "timers_ok st'" .
  have disj: "timer (pluses ?a ! s) = None \<or> Call (TimeoutAbortCb s) \<in> set (?ts @ extra) \<or>
        ClearTimerFields s \<in> set (?ts @ extra) \<or>
        ((unf \<longrightarrow> \<not> fired (sigs ?a ! nsignal (pluses ?a ! s))) \<and>
         (TimeoutAbortCb s, True) \<in> set (listeners (sigs ?a ! nsignal (pluses ?a ! s))))"
    if s: "s < length (pluses st)" and u: "unf \<longrightarrow> \<not> fired (sigs st ! nsignal (pluses st ! s))"
    for s unf
  proof -
    let ?n = "nsignal (pluses st ! s)"
    from pluses_okD [OF po s] have n: "?n < length (sigs st)" .
    from pe s have "timer (pluses st ! s) = None \<or> Call (TimeoutAbortCb s) \<in> set extra \<or>
        ClearTimerFields s \<in> set extra \<or> (TimeoutAbortCb s, True) \<in> set (listeners (sigs st ! ?n))"
      by (simp add: pending_ok_def)
    then consider (a) "timer (pluses st ! s) = None \<or> Call (TimeoutAbortCb s) \<in> set extra \<or>
        ClearTimerFields s \<in> set extra"
      | (reg) "(TimeoutAbortCb s, True) \<in> set (listeners (sigs st ! ?n))" by blast
    then show ?thesis
    proof cases
      case a
      then show ?thesis by (auto simp: rest)
    next
      case reg
      from signal_abort_dispatch [OF n, of m r] reg u show ?thesis by (auto simp: rest)
    qed
  qed
  have "pending_ok (?ts @ extra) ?a"
    unfolding pending_ok_def
  proof (intro allI impI)
    fix s assume "s < length (pluses ?a)"
    then have "s < length (pluses st)" by (simp add: rest)
    from disj [OF this, of False] show "timer (pluses ?a ! s) = None \<or>
        Call (TimeoutAbortCb s) \<in> set (?ts @ extra) \<or> ClearTimerFields s \<in> set (?ts @ extra) \<or>
        (TimeoutAbortCb s, True) \<in> set (listeners (sigs ?a ! nsignal (pluses ?a ! s)))"
      by simp
  qed
  from run_pending_ok [OF r this poa] have ar: "armed_ok st'" .
  have "\<forall>s < length (pluses st). \<not> sig_aborted st (Plus s) \<longrightarrow> sig_aborted st' (Plus s) \<longrightarrow>
          timer (pluses st' ! s) = None"
  proof (intro allI impI)
    fix s assume s: "s < length (pluses st)" and un: "\<not> sig_aborted st (Plus s)"
      and ab: "sig_aborted st' (Plus s)"
    let ?n = "nsignal (pluses st ! s)"
    from pluses_okD [OF po s] have n: "?n < length (sigs st)" .
    from un have "\<not> (case own_aborted (sigs st ! ?n) of Some b \<Rightarrow> b | None \<Rightarrow> fired (sigs st ! ?n))"
      by (simp add: sig_aborted_def sig_native_def Let_def)
    from unaborted_unfired [OF pr n this] have uf: "\<not> fired (sigs st ! ?n)"
      and on: "own_aborted (sigs st ! ?n) = None" by simp_all
    from ev have sr: "sigs_rel st st'" by (simp add: evolves_def)
    then have "nsignal (pluses st' ! s) = ?n" "own_aborted (sigs st' ! ?n) = None"
      using on by (simp_all add: sigs_rel_def)
    with ab have f': "fired (sigs st' ! ?n)"
      by (simp add: sig_aborted_def sig_native_def Let_def)
    have 1: "s < length (pluses ?a)" using s by (simp add: rest)
    have 2: "nsignal (pluses ?a ! s) < length (sigs ?a)" using n by (simp add: rest len)
    from disj [OF s, of True] uf
    have 3: "timer (pluses ?a ! s) = None \<or> Call (TimeoutAbortCb s) \<in> set (?ts @ extra) \<or>
        ClearTimerFields s \<in> set (?ts @ extra) \<or>
        (\<not> fired (sigs ?a ! nsignal (pluses ?a ! s)) \<and>
         (TimeoutAbortCb s, True) \<in> set (listeners (sigs ?a ! nsignal (pluses ?a ! s))))"
      by simp
    have 4: "fired (sigs st' ! nsignal (pluses ?a ! s))" using f' by (simp add: rest)
    from run_fired_clears [OF r 1 2 3 4] show "timer (pluses st' ! s) = None" .
  qed
  with r ev w' tk' ar show ?thesis by (auto simp: timers_inv_def)
qed

lemma controller_abort_step_signal_abort:
  "controller_abort_step st s r =
     signal_abort (snd (default_reason (st\<lparr>abortLog := abortLog st @ [(s, r)]\<rparr>) r))
       (nsignal (pluses st ! s)) (fst (default_reason (st\<lparr>abortLog := abortLog st @ [(s, r)]\<rparr>) r))"
proof -
  have "pluses (snd (default_reason (st\<lparr>abortLog := abortLog st @ [(s, r)]\<rparr>) r)) = pluses st"
    by (simp add: default_reason_def new_AbortError_def)
  then show ?thesis by (simp add: controller_abort_step_def split_beta)
qed

lemma fire_controller:
  assumes wf: "wf_state st" and tk: "timers_ok st" and pe: "pending_ok extra st"
    and ex: "\<forall>t \<in> set extra. task_ok st t"
    and cl: "\<forall>s. ClearTimerFields s \<in> set extra \<longrightarrow> timers_of st s = []"
  shows "\<exists>st'. run (fst (controller_abort_step st s' r) @ extra) (snd (controller_abort_step st s' r)) =
             Some st' \<and>
           evolves st st' \<and> timers_inv st' \<and>
           (\<forall>s < length (pluses st). \<not> sig_aborted st (Plus s) \<longrightarrow> sig_aborted st' (Plus s) \<longrightarrow>
                timer (pluses st' ! s) = None)"
proof -
  let ?l = "st\<lparr>abortLog := abortLog st @ [(s', r)]\<rparr>"
  let ?d = "snd (default_reason ?l r)"
  have same: "nodes ?d = nodes st" "sigs ?d = sigs st" "pluses ?d = pluses st"
    "timers ?d = timers st" "next_timer ?d = next_timer st"
    by (simp_all add: default_reason_def new_AbortError_def)
  have ed: "evolves st ?d"
  proof -
    have "evolves st ?l"
      by (simp add: evolves_def nodes_rel_same sigs_rel_same logs_rel_def filter_True_ex timer_rel_same)
    then show ?thesis using evolves_default_reason by (rule evolves_trans)
  qed
  have 1: "wf_state ?d" using wf ed by (rule wf_evolves)
  have 2: "timers_ok ?d" using tk by (simp add: timers_ok_same [of ?d st] same)
  have 3: "pending_ok extra ?d" using pe by (simp add: pending_ok_same [of ?d st] same)
  have 4: "\<forall>t \<in> set extra. task_ok ?d t" using ex by (simp add: task_ok_same [of ?d st] same)
  have 5: "\<forall>s. ClearTimerFields s \<in> set extra \<longrightarrow> timers_of ?d s = []"
    using cl by (simp add: timers_of_same [of ?d st] same)
  from fire_signal [OF 1 2 3 4 5, of "nsignal (pluses st ! s')" "fst (default_reason ?l r)"]
  obtain st' where r: "run (fst (controller_abort_step st s' r) @ extra)
                           (snd (controller_abort_step st s' r)) = Some st'"
    and e: "evolves ?d st'" and i: "timers_inv st'"
    and c: "\<forall>s < length (pluses ?d). \<not> sig_aborted ?d (Plus s) \<longrightarrow> sig_aborted st' (Plus s) \<longrightarrow>
                timer (pluses st' ! s) = None"
    unfolding controller_abort_step_signal_abort by blast
  from c have "\<forall>s < length (pluses st). \<not> sig_aborted st (Plus s) \<longrightarrow> sig_aborted st' (Plus s) \<longrightarrow>
                timer (pluses st' ! s) = None"
    by (simp add: same sig_aborted_same [of ?d st])
  with r evolves_trans [OF ed e] i show ?thesis by blast
qed

lemma controller_abort_timers:
  assumes "timers_inv st"
  shows "\<exists>st'. controller_abort st s' r = Some st' \<and> evolves st st' \<and> timers_inv st' \<and>
           (\<forall>s < length (pluses st). \<not> sig_aborted st (Plus s) \<longrightarrow> sig_aborted st' (Plus s) \<longrightarrow>
                timer (pluses st' ! s) = None)"
proof -
  from assms have a: "wf_state st" "timers_ok st" "pending_ok [] st"
    by (simp_all add: timers_inv_def armed_ok_def)
  from fire_controller [OF a, of s' r] show ?thesis
    by (simp add: controller_abort_def split_beta)
qed

lemma native_abort_timers:
  assumes "timers_inv st"
  shows "\<exists>st'. native_abort st n r = Some st' \<and> evolves st st' \<and> timers_inv st' \<and>
           (\<forall>s < length (pluses st). \<not> sig_aborted st (Plus s) \<longrightarrow> sig_aborted st' (Plus s) \<longrightarrow>
                timer (pluses st' ! s) = None)"
proof -
  let ?a = "native_alloc st r"
  have same: "nodes ?a = nodes st" "sigs ?a = sigs st" "pluses ?a = pluses st"
    "timers ?a = timers st" "next_timer ?a = next_timer st"
    by (simp_all add: native_alloc_def)
  from assms have a: "wf_state ?a" "timers_ok ?a" "pending_ok [] ?a"
    by (simp_all add: timers_inv_def armed_ok_def wf_state_same [of ?a st] same
          timers_ok_same [of ?a st] pending_ok_same [of ?a st])
  from fire_signal [OF a, of n "native_reason st r"]
  obtain st' where r: "run (fst (signal_abort ?a n (native_reason st r)))
                           (snd (signal_abort ?a n (native_reason st r))) = Some st'"
    and e: "evolves ?a st'" and i: "timers_inv st'"
    and c: "\<forall>s < length (pluses ?a). \<not> sig_aborted ?a (Plus s) \<longrightarrow> sig_aborted st' (Plus s) \<longrightarrow>
                timer (pluses st' ! s) = None"
    by auto
  from c have "\<forall>s < length (pluses st). \<not> sig_aborted st (Plus s) \<longrightarrow> sig_aborted st' (Plus s) \<longrightarrow>
                timer (pluses st' ! s) = None"
    by (simp add: same sig_aborted_same [of ?a st])
  moreover have "native_abort st n r = Some st'"
    using r by (simp add: native_abort_unfold)
  ultimately show ?thesis using evolves_trans [OF evolves_native_alloc e] i by blast
qed

section \<open>The example stores\<close>

lemmas eval_defs = abort_def default_reason_def nullish_def doAbort_def parent_of_def settled_of_def
  raw_reject_def raw_resolve_def controller_abort_def controller_abort_step_def signal_abort_def
  dispatchEvent_def sig_reason_def sig_aborted_def sig_native_def Let_def new_AbortError_def
  new_TimeoutError_def translate_def isTimeoutError_def clearTimeout_def clear_timer_fields_def
  addEventListener_def listen_def construct_def createController_def init_def then_promise_def
  resolve_cap_def reject_cap_def defineProperty_def timeout_def fire_timer_def listen_signal_def
  one_def timeout_error_def abort_error_def native_abort_def

lemma bound_node_built:
  "construct (fst (createController init NoController)) [] (Some (Plus 0)) = Some (bound_node, 0)"
  by (simp add: eval_defs bound_node_def)

lemma chain3_built:
  "Option.bind (construct init [CallResolve (Num 1)] None)
     (\<lambda>(a, r). Option.bind (then_promise a r) (\<lambda>(b, p). then_promise b p)) = Some (chain3, 2)"
  by (simp add: eval_defs chain3_def)


lemma doAbort_keeps_isSettled: "doAbort st n r = Some st' \<Longrightarrow> settled_of st' = settled_of st"
  using nodes_doAbort [of st n r st'] by (simp add: nodes_rel_def)

lemmas wf_defs = wf_state_def chain_ok_def listeners_ok_def props_ok_def pluses_ok_def task_ok_def
  sig_ok_def parent_of_def

lemma fresh_signal_built: "createController init NoController = (fresh_signal, 0)"
  by (simp add: eval_defs fresh_signal_def)

lemma aborted_signal_built: "controller_abort fresh_signal 0 (Str ''X'') = Some aborted_signal"
  by (simp add: eval_defs fresh_signal_def aborted_signal_def)

lemma wf_fresh_signal: "wf_state fresh_signal"
  by (simp add: wf_defs fresh_signal_def)

lemma wf_aborted_signal: "wf_state aborted_signal"
  by (simp add: wf_defs aborted_signal_def)

lemma wf_bound_node: "wf_state bound_node"
  by (simp add: wf_defs bound_node_def)

lemma two_signals_built:
  "Option.bind (construct init [] None)
     (\<lambda>(a, p). Some (fst (createController (fst (createController a NoController)) NoController))) =
   Some two_signals"
  by (simp add: eval_defs two_signals_def)


lemma timed_out_source_built:
  "fire_timer
     (fst (timeout (fst (createController (fst (createController init NoController)) NoController))
             1 10)) 0 = Some timed_out_source"
  by (simp add: eval_defs timed_out_source_def)


lemma three_signals_built:
  "controller_abort
     (fst (createController (fst (createController (fst (createController init NoController))
        NoController)) NoController)) 2 (Str ''X'') = Some three_signals"
  by (simp add: eval_defs three_signals_def)

lemma wf_three_signals: "wf_state three_signals"
  by (simp add: wf_defs three_signals_def less_Suc_eq numeral_3_eq_3)

lemma bound_to_aborted_built:
  "construct aborted_signal [] (Some (Plus 0)) = Some (bound_to_aborted, 0)"
  by (simp add: eval_defs aborted_signal_def bound_to_aborted_def walk.simps)

lemma bound_native_built:
  "construct native_signal [] (Some (Native 0)) = Some (bound_native, 0)"
  by (simp add: eval_defs native_signal_def bound_native_def)

lemma aborted_native_built: "abort bound_native 0 (Str ''a'') = Some (Returned aborted_native)"
  by (simp add: eval_defs bound_native_def aborted_native_def walk.simps)

lemma wf_bound_native: "wf_state bound_native"
  by (simp add: wf_defs bound_native_def)

lemma wf_aborted_native: "wf_state aborted_native"
  by (simp add: wf_defs aborted_native_def)

lemma wf_bound_to_aborted: "wf_state bound_to_aborted"
  by (simp add: wf_defs bound_to_aborted_def)


section \<open>The claims\<close>

text \<open>
  C5. \<open>AbortablePromise.from\<close> given a promise that is an \<open>AbortablePromise\<close> already
  returns that very promise, whatever signal comes with it, and changes nothing in the
  store: no node is created, and no parent, signal binding or settled flag changes.
  \<open>AbortSignalPlus.from\<close> given an \<open>AbortSignalPlus\<close> returns it in the same way.
\<close>

theorem from_returns_its_argument:
  "from_promise st (Abortable x) sg = Some (st, x) \<and> signal_from st (Plus s) = Some (st, s)"
  by (simp add: from_promise_def signal_from_def)




text \<open>
  C2 at the input where the code departs from it: a promise whose executor settles
  nothing is aborted. The promise is then rejected with the reason, and its \<open>_isSettled\<close>
  is still \<open>false\<close>: \<open>_doAbort\<close> calls the promise's own reject function, not the wrapper
  that the executor receives, and only the wrapper sets the flag.
\<close>

theorem abort_leaves_isSettled_false:
  "construct init [] None = Some (pending_root, 0) \<and>
   abort pending_root 0 (Str ''R'') =
     Some (Returned (pending_root
       \<lparr>nodes := [\<lparr>parent = 0, isSettled = False, signal = None,
                   underlying = Rejected (Str ''R'')\<rparr>],
        rejectLog := [(0, Str ''R'')]\<rparr>))"
  by (simp add: eval_defs pending_root_def walk.simps)

text \<open>
  C6. Constructing a promise with a signal, in a well-formed store. When the signal is
  aborted already, the new node is rejected at once with the signal's reason, by the walk
  that starts and ends at the node itself; the executor runs after that, and neither it
  nor any later call of its resolve function changes the outcome; no listener is
  registered. When the signal is not aborted, one listener is registered on it, with
  \<open>once\<close>; called in any later store it rejects the node with the reason the signal has
  then, and when the signal fires the node's reject function is called with that reason.
\<close>

theorem construct_with_a_signal:
  assumes "wf_state st" and "sig_ok st sg"
  shows
    "(sig_aborted st sg \<longrightarrow>
        (\<exists>st'. construct st executor (Some sg) = Some (st', length (nodes st)) \<and>
           st' = run_executor (raw_reject (fresh_node st sg) (length (nodes st)) (sig_reason st sg))
                   (length (nodes st)) executor \<and>
           underlying (nodes st' ! length (nodes st)) = Rejected (sig_reason st sg) \<and>
           (\<forall>v. underlying (nodes (resolve_cap st' (length (nodes st)) v) ! length (nodes st)) =
                  Rejected (sig_reason st sg)) \<and>
           sigs st' = sigs st)) \<and>
     (\<not> sig_aborted st sg \<longrightarrow>
        (\<exists>st'. construct st executor (Some sg) = Some (st', length (nodes st)) \<and>
           st' = run_executor (addEventListener (fresh_node st sg) sg
                                 (ListenCb (length (nodes st)) sg) True)
                   (length (nodes st)) executor \<and>
           listeners (sigs st' ! sig_native st sg) =
             listeners (sigs st ! sig_native st sg) @ [(ListenCb (length (nodes st)) sg, True)] \<and>
           (\<forall>m. m \<noteq> sig_native st sg \<longrightarrow> sigs st' ! m = sigs st ! m) \<and>
           (\<forall>st2. parent_of st2 (length (nodes st)) = length (nodes st) \<longrightarrow>
                  exec (Call (ListenCb (length (nodes st)) sg)) st2 =
                    Some ([], raw_reject st2 (length (nodes st)) (sig_reason st2 sg))) \<and>
           (\<forall>r. \<exists>st3. native_abort st' (sig_native st sg) r = Some st3 \<and>
                  sig_aborted st3 sg \<and> sig_reason st3 sg = native_reason st' r \<and>
                  (length (nodes st), native_reason st' r) \<in> set (rejectLog st3) \<and>
                  underlying (nodes st3 ! length (nodes st)) \<noteq> Pending)))"
proof (intro conjI impI)
  let ?p = "length (nodes st)"
  assume ab: "sig_aborted st sg"
  let ?a = "raw_reject (fresh_node st sg) ?p (sig_reason st sg)"
  let ?st' = "run_executor ?a ?p executor"
  have c: "construct st executor (Some sg) = Some (?st', ?p)"
    using ab by (simp add: construct_bound)
  have ua: "underlying (nodes ?a ! ?p) = Rejected (sig_reason st sg)"
    by (simp add: raw_reject_def Let_def fresh_node_def)
  then have u: "underlying (nodes ?st' ! ?p) = Rejected (sig_reason st sg)"
    by (simp add: underlying_run_executor)
  then have l: "\<forall>v. underlying (nodes (resolve_cap ?st' ?p v) ! ?p) = Rejected (sig_reason st sg)"
    by (simp add: underlying_resolve_cap)
  have s: "sigs ?st' = sigs st"
    using cap_rel_run_executor [of ?a ?p executor] by (simp add: cap_rel_def)
  from c u l s show "\<exists>st'. construct st executor (Some sg) = Some (st', ?p) \<and>
           st' = ?st' \<and> underlying (nodes st' ! ?p) = Rejected (sig_reason st sg) \<and>
           (\<forall>v. underlying (nodes (resolve_cap st' ?p v) ! ?p) = Rejected (sig_reason st sg)) \<and>
           sigs st' = sigs st" by blast
next
  let ?p = "length (nodes st)"
  let ?n = "sig_native st sg"
  assume un: "\<not> sig_aborted st sg"
  let ?f = "fresh_node st sg"
  let ?a = "addEventListener ?f sg (ListenCb ?p sg) True"
  let ?st' = "run_executor ?a ?p executor"
  from assms have n: "?n < length (sigs st)" by (simp add: wf_state_def sig_native_ok)
  have c: "construct st executor (Some sg) = Some (?st', ?p)"
    using un by (simp add: construct_bound)
  have nf: "sig_native ?f sg = ?n" by (rule sig_native_same) simp
  have sa: "sigs ?a = (sigs st)[?n := (sigs st ! ?n)\<lparr>listeners :=
              listeners (sigs st ! ?n) @ [(ListenCb ?p sg, True)]\<rparr>]"
    by (simp add: addEventListener_def Let_def nf)
  note cr = cap_rel_run_executor [of ?a ?p executor]
  from cr have s': "sigs ?st' = sigs ?a" "pluses ?st' = pluses st" "parent_of ?st' = parent_of ?a"
    "length (nodes ?st') = Suc ?p"
    by (simp_all add: cap_rel_def)
  have 1: "listeners (sigs ?st' ! ?n) = listeners (sigs st ! ?n) @ [(ListenCb ?p sg, True)]"
    using n by (simp add: s' sa)
  have 2: "\<forall>m. m \<noteq> ?n \<longrightarrow> sigs ?st' ! m = sigs st ! m"
    by (simp add: s' sa)
  have 3: "\<forall>st2. parent_of st2 ?p = ?p \<longrightarrow>
             exec (Call (ListenCb ?p sg)) st2 = Some ([], raw_reject st2 ?p (sig_reason st2 sg))"
    by (simp add: doAbort_def walk_root)
  have wf': "wf_state ?st'"
  proof -
    have "wf_state ?f" using assms(1) by (rule wf_fresh_node)
    moreover have "task_ok ?f (Call (ListenCb ?p sg))" by (simp add: task_ok_def)
    ultimately have "wf_state ?a" by (rule wf_addEventListener)
    then show ?thesis using cr by (rule wf_cap_rel)
  qed
  have n': "?n = sig_native ?st' sg" "?n < length (sigs ?st')"
    using n by (simp_all add: s' sa sig_native_same [of ?st' st])
  have un': "\<not> sig_aborted ?st' sg"
  proof -
    have "own_aborted (sigs ?st' ! ?n) = own_aborted (sigs st ! ?n)"
      "fired (sigs ?st' ! ?n) = fired (sigs st ! ?n)"
      using n by (simp_all add: s' sa)
    with un show ?thesis
      by (simp add: sig_aborted_def Let_def n'(1) [symmetric] split: option.splits)
  qed
  have li: "(ListenCb ?p sg, True) \<in> set (listeners (sigs ?st' ! ?n))" by (simp add: 1)
  have pp: "parent_of ?st' ?p = ?p"
    by (simp add: s' parent_of_same [of ?a ?f])
  then have w: "walk (parent_of ?st') (settled_of ?st') ?p = Some ?p" by (rule walk_root)
  have lt: "?p < length (nodes ?st')" by (simp add: s')
  have 4: "\<forall>r. \<exists>st3. native_abort ?st' ?n r = Some st3 \<and>
                  sig_aborted st3 sg \<and> sig_reason st3 sg = native_reason ?st' r \<and>
                  (?p, native_reason ?st' r) \<in> set (rejectLog st3) \<and>
                  underlying (nodes st3 ! ?p) \<noteq> Pending"
  proof
    fix r
    from listener_fires [OF wf' n' un' li w lt, of r]
    show "\<exists>st3. native_abort ?st' ?n r = Some st3 \<and>
                  sig_aborted st3 sg \<and> sig_reason st3 sg = native_reason ?st' r \<and>
                  (?p, native_reason ?st' r) \<in> set (rejectLog st3) \<and>
                  underlying (nodes st3 ! ?p) \<noteq> Pending" by blast
  qed
  from c 1 2 3 4 show "\<exists>st'. construct st executor (Some sg) = Some (st', ?p) \<and>
           st' = ?st' \<and>
           listeners (sigs st' ! ?n) = listeners (sigs st ! ?n) @ [(ListenCb ?p sg, True)] \<and>
           (\<forall>m. m \<noteq> ?n \<longrightarrow> sigs st' ! m = sigs st ! m) \<and>
           (\<forall>st2. parent_of st2 ?p = ?p \<longrightarrow>
                  exec (Call (ListenCb ?p sg)) st2 = Some ([], raw_reject st2 ?p (sig_reason st2 sg))) \<and>
           (\<forall>r. \<exists>st3. native_abort st' ?n r = Some st3 \<and>
                  sig_aborted st3 sg \<and> sig_reason st3 sg = native_reason st' r \<and>
                  (?p, native_reason st' r) \<in> set (rejectLog st3) \<and>
                  underlying (nodes st3 ! ?p) \<noteq> Pending)" by blast
qed

text \<open>
  Two constructions: with the signal of a controller aborted with \<open>''X''\<close> and an executor
  that resolves at once, and with a signal not yet aborted, which then fires with \<open>''Y''\<close>.
\<close>

theorem construct_with_a_signal_witness:
  "wf_state aborted_signal \<and> sig_ok aborted_signal (Plus 0) \<and> sig_aborted aborted_signal (Plus 0) \<and>
   (\<exists>st'. construct aborted_signal [CallResolve (Num 5)] (Some (Plus 0)) = Some (st', 0) \<and>
      underlying (nodes st' ! 0) = Rejected (Str ''X'') \<and> isSettled (nodes st' ! 0) \<and>
      (\<forall>v. underlying (nodes (resolve_cap st' 0 v) ! 0) = Rejected (Str ''X'')) \<and>
      sigs st' = sigs aborted_signal) \<and>
   wf_state fresh_signal \<and> sig_ok fresh_signal (Plus 0) \<and> \<not> sig_aborted fresh_signal (Plus 0) \<and>
   construct fresh_signal [] (Some (Plus 0)) = Some (bound_node, 0) \<and>
   listeners (sigs bound_node ! 0) = [(ListenCb 0 (Plus 0), True)] \<and>
   (\<forall>r. \<exists>st3. native_abort bound_node 0 r = Some st3 \<and> sig_aborted st3 (Plus 0) \<and>
          sig_reason st3 (Plus 0) = native_reason bound_node r \<and>
          (0, native_reason bound_node r) \<in> set (rejectLog st3) \<and>
          underlying (nodes st3 ! 0) \<noteq> Pending) \<and>
   native_abort bound_node 0 (Str ''Y'') =
     Some (bound_node
       \<lparr>nodes := [\<lparr>parent = 0, isSettled = False, signal = Some (Plus 0),
                   underlying = Rejected (Str ''Y'')\<rparr>],
        sigs := [\<lparr>fired = True, freason = Str ''Y'', own_aborted = None, own_reason = None,
                  listeners = []\<rparr>],
        rejectLog := [(0, Str ''Y'')]\<rparr>)"
proof -
  note a1 = wf_aborted_signal
  have a: "sig_ok aborted_signal (Plus 0)" "sig_aborted aborted_signal (Plus 0)"
    "sig_reason aborted_signal (Plus 0) = Str ''X''" "length (nodes aborted_signal) = 0"
    by (simp_all add: sig_ok_def sig_aborted_def sig_reason_def sig_native_def aborted_signal_def)
  note f1 = wf_fresh_signal
  have f: "sig_ok fresh_signal (Plus 0)" "\<not> sig_aborted fresh_signal (Plus 0)"
    "sig_native fresh_signal (Plus 0) = 0" "length (nodes fresh_signal) = 0"
    by (simp_all add: sig_ok_def sig_aborted_def sig_native_def fresh_signal_def)
  note ta = construct_with_a_signal [OF a1 a(1), of "[CallResolve (Num 5)]", THEN conjunct1,
                rule_format, OF a(2), unfolded a(3,4)]
  note tf = construct_with_a_signal [OF f1 f(1), of "[]", THEN conjunct2, rule_format, OF f(2),
                unfolded f(3,4)]
  have s: "isSettled (nodes (run_executor (raw_reject (fresh_node aborted_signal (Plus 0)) 0 (Str ''X''))
                        0 [CallResolve (Num 5)]) ! 0)"
    by (simp add: eval_defs fresh_node_def aborted_signal_def)
  from ta s have 1: "\<exists>st'. construct aborted_signal [CallResolve (Num 5)] (Some (Plus 0)) = Some (st', 0) \<and>
      underlying (nodes st' ! 0) = Rejected (Str ''X'') \<and> isSettled (nodes st' ! 0) \<and>
      (\<forall>v. underlying (nodes (resolve_cap st' 0 v) ! 0) = Rejected (Str ''X'')) \<and>
      sigs st' = sigs aborted_signal" by blast
  have b: "run_executor (addEventListener (fresh_node fresh_signal (Plus 0)) (Plus 0)
             (ListenCb 0 (Plus 0)) True) 0 [] = bound_node"
    by (simp add: eval_defs fresh_node_def fresh_signal_def bound_node_def)
  from tf have 2: "construct fresh_signal [] (Some (Plus 0)) = Some (bound_node, 0)"
    and 3: "listeners (sigs bound_node ! 0) = listeners (sigs fresh_signal ! 0) @ [(ListenCb 0 (Plus 0), True)]"
    and 4: "\<forall>r. \<exists>st3. native_abort bound_node 0 r = Some st3 \<and> sig_aborted st3 (Plus 0) \<and>
          sig_reason st3 (Plus 0) = native_reason bound_node r \<and>
          (0, native_reason bound_node r) \<in> set (rejectLog st3) \<and>
          underlying (nodes st3 ! 0) \<noteq> Pending"
    unfolding b by blast+
  from 3 have l3: "listeners (sigs bound_node ! 0) = [(ListenCb 0 (Plus 0), True)]"
    by (simp add: fresh_signal_def)
  have 5: "native_abort bound_node 0 (Str ''Y'') =
     Some (bound_node
       \<lparr>nodes := [\<lparr>parent = 0, isSettled = False, signal = Some (Plus 0),
                   underlying = Rejected (Str ''Y'')\<rparr>],
        sigs := [\<lparr>fired = True, freason = Str ''Y'', own_aborted = None, own_reason = None,
                  listeners = []\<rparr>],
        rejectLog := [(0, Str ''Y'')]\<rparr>)"
    by (simp add: native_abort_def eval_defs bound_node_def walk.simps)
  from a1 a(1,2) 1 f1 f(1,2) 2 l3 4 5 show ?thesis by (intro conjI)
qed





text \<open>
  C4. \<open>any(signals)\<close> on a signal \<open>s\<close>, in a well-formed store. While the sources it
  meets are not aborted it registers on each its listener, with \<open>once\<close>, in the order of
  the collection: with no aborted source, the result is the store with exactly these
  listeners added, each at the end of the listeners of its source. At the first aborted
  source \<open>a\<close> it does what \<open>one(a)\<close> does in the store reached so far: it calls the
  controller's \<open>abort\<close> with the reason of \<open>a\<close>, translated, and returns. The sources
  after \<open>a\<close> have no part in the result, and the listeners of every signal at the end are
  among those it had when \<open>a\<close> was reached: none was registered on \<open>a\<close> or later.
\<close>

theorem any_stops_at_the_first_aborted_source:
  assumes "wf_state st" and "s < length (pluses st)"
    and "\<forall>sg \<in> set pre. sig_ok st sg \<and> \<not> sig_aborted st sg"
  shows
    "any_signal st s pre = Some (registered st s pre, s) \<and>
     (\<forall>n. listeners (sigs (registered st s pre) ! n) =
            listeners (sigs st ! n) @
            map (\<lambda>sg. (ForwardCb s sg, True)) (filter (\<lambda>sg. sig_native st sg = n) pre)) \<and>
     (sig_aborted st a \<longrightarrow>
        any_signal st s (pre @ a # post) = one (registered st s pre) s a \<and>
        (\<exists>st'. any_signal st s (pre @ a # post) = Some (st', s) \<and>
           (\<exists>e. abortLog st' = abortLog st @
                   (s, if isTimeoutError (sig_reason st a) then timeout_error (next_obj st)
                       else sig_reason st a) # e) \<and>
           sig_aborted st' (Plus s) \<and>
           (\<forall>n. \<exists>P. listeners (sigs st' ! n) =
                       filter P (listeners (sigs (registered st s pre) ! n)))))"
proof (intro conjI impI)
  from assms(3) have un: "\<forall>sg \<in> set pre. \<not> sig_aborted st sg" by simp
  from any_signal_unaborted [OF un, of s "[]"]
  show "any_signal st s pre = Some (registered st s pre, s)" by simp
  from assms(1,3) have "\<forall>sg \<in> set pre. sig_native st sg < length (sigs st)"
    by (simp add: wf_state_def sig_native_ok)
  then show "\<forall>n. listeners (sigs (registered st s pre) ! n) =
            listeners (sigs st ! n) @
            map (\<lambda>sg. (ForwardCb s sg, True)) (filter (\<lambda>sg. sig_native st sg = n) pre)"
    by (simp add: listeners_registered)
  assume ab: "sig_aborted st a"
  let ?r = "registered st s pre"
  from ab have ab': "sig_aborted ?r a" by simp
  from any_signal_unaborted [OF un, of s "a # post"] any_signal_aborted_head [OF ab', of s post]
  show e: "any_signal st s (pre @ a # post) = one ?r s a" by simp
  have wr: "wf_state ?r" using assms(1) by (rule wf_registered)
  have sr: "s < length (pluses ?r)" using assms(2) by simp
  from listen_signal_aborts [OF wr sr ab'] obtain st' where
    l: "listen_signal ?r s a = Some (st', True)" "evolves ?r st'"
       "\<exists>e. abortLog st' = abortLog ?r @
               (s, if isTimeoutError (sig_reason ?r a) then timeout_error (next_obj ?r)
                   else sig_reason ?r a) # e"
       "sig_aborted st' (Plus s)" by blast
  from l(1) e have 1: "any_signal st s (pre @ a # post) = Some (st', s)" by (simp add: one_def)
  from l(3) have 2: "\<exists>e. abortLog st' = abortLog st @
                   (s, if isTimeoutError (sig_reason st a) then timeout_error (next_obj st)
                       else sig_reason st a) # e" by (simp cong: if_cong)
  from l(2) have 3: "\<forall>n. \<exists>P. listeners (sigs st' ! n) = filter P (listeners (sigs ?r ! n))"
    by (simp add: evolves_def sigs_rel_def)
  from 1 2 l(4) 3 show "\<exists>st'. any_signal st s (pre @ a # post) = Some (st', s) \<and>
           (\<exists>e. abortLog st' = abortLog st @
                   (s, if isTimeoutError (sig_reason st a) then timeout_error (next_obj st)
                       else sig_reason st a) # e) \<and>
           sig_aborted st' (Plus s) \<and>
           (\<forall>n. \<exists>P. listeners (sigs st' ! n) = filter P (listeners (sigs ?r ! n)))" by blast
qed

text \<open>
  \<open>any\<close> over an unaborted source, an aborted one and the first again: one listener on the
  first, the signal aborted with the reason of the second, nothing done for the third.
\<close>

theorem any_stops_at_the_first_aborted_source_witness:
  "wf_state three_signals \<and> 0 < length (pluses three_signals) \<and>
   sig_ok three_signals (Plus 1) \<and> \<not> sig_aborted three_signals (Plus 1) \<and>
   sig_aborted three_signals (Plus 2) \<and>
   any_signal three_signals 0 [Plus 1] = Some (registered three_signals 0 [Plus 1], 0) \<and>
   listeners (sigs (registered three_signals 0 [Plus 1]) ! 1) = [(ForwardCb 0 (Plus 1), True)] \<and>
   any_signal three_signals 0 ([Plus 1] @ Plus 2 # [Plus 1]) =
     one (registered three_signals 0 [Plus 1]) 0 (Plus 2) \<and>
   any_signal three_signals 0 [Plus 1, Plus 2, Plus 1] =
     Some (three_signals
       \<lparr>sigs := [\<lparr>fired = True, freason = Str ''X'', own_aborted = None, own_reason = None,
                  listeners = []\<rparr>,
                 \<lparr>fired = False, freason = Undefined, own_aborted = None, own_reason = None,
                  listeners = [(ForwardCb 0 (Plus 1), True)]\<rparr>,
                 \<lparr>fired = True, freason = Str ''X'', own_aborted = None, own_reason = None,
                  listeners = []\<rparr>],
        abortLog := [(2, Str ''X''), (0, Str ''X'')]\<rparr>, 0)"
proof -
  note h1 = wf_three_signals
  have h: "0 < length (pluses three_signals)" "sig_ok three_signals (Plus 1)"
    "\<not> sig_aborted three_signals (Plus 1)" "sig_aborted three_signals (Plus 2)"
    by (simp_all add: sig_ok_def sig_aborted_def sig_native_def three_signals_def)
  from h(2,3) have h3: "\<forall>sg \<in> set [Plus 1]. sig_ok three_signals sg \<and> \<not> sig_aborted three_signals sg"
    by simp
  note t = any_stops_at_the_first_aborted_source [OF h1 h(1) h3, of "Plus 2" "[Plus 1]"]
  from t have 1: "any_signal three_signals 0 [Plus 1] = Some (registered three_signals 0 [Plus 1], 0)"
    by blast
  from t have "listeners (sigs (registered three_signals 0 [Plus 1]) ! 1) =
            listeners (sigs three_signals ! 1) @
            map (\<lambda>sg. (ForwardCb 0 sg, True))
              (filter (\<lambda>sg. sig_native three_signals sg = 1) [Plus 1])"
    by blast
  then have 2: "listeners (sigs (registered three_signals 0 [Plus 1]) ! 1) = [(ForwardCb 0 (Plus 1), True)]"
    by (simp add: sig_native_def three_signals_def)
  from t h(4) have 3: "any_signal three_signals 0 ([Plus 1] @ Plus 2 # [Plus 1]) =
     one (registered three_signals 0 [Plus 1]) 0 (Plus 2)" by blast
  have 4: "any_signal three_signals 0 [Plus 1, Plus 2, Plus 1] =
     Some (three_signals
       \<lparr>sigs := [\<lparr>fired = True, freason = Str ''X'', own_aborted = None, own_reason = None,
                  listeners = []\<rparr>,
                 \<lparr>fired = False, freason = Undefined, own_aborted = None, own_reason = None,
                  listeners = [(ForwardCb 0 (Plus 1), True)]\<rparr>,
                 \<lparr>fired = True, freason = Str ''X'', own_aborted = None, own_reason = None,
                  listeners = []\<rparr>],
        abortLog := [(2, Str ''X''), (0, Str ''X'')]\<rparr>, 0)"
    by (simp add: eval_defs three_signals_def)
  from h1 h 1 2 3 4 show ?thesis by (intro conjI)
qed

text \<open>
  C8. \<open>abort(reason)\<close> on a node of a well-formed store, with \<open>reason ?? new AbortError()\<close>
  for the reason. With no bound signal the call is the chain-walk rejection and nothing
  else. With a bound \<open>AbortSignalPlus\<close> it calls the \<open>abort\<close> of that signal's controller with
  the same reason and leaves the signal aborted; the signal reports that reason when it
  was not aborted before the call. With a bound native signal that has no own \<open>reason\<close>
  property, or has this very reason as one, it defines the own properties \<open>aborted\<close>, as
  \<open>true\<close>, and \<open>reason\<close>, so that the signal reports itself aborted with that reason, and it
  dispatches the event: no \<open>once\<close> listener is left on the signal, and every node that
  listens to the signal has had the target of its chain-walk rejected with that reason.
\<close>

theorem abort_marks_the_bound_signal:
  assumes "wf_state st" and "bound_ok st p"
  shows
    "\<exists>t. walk (parent_of st) (settled_of st) p = Some t \<and>
       (case signal (nodes st ! p) of
          None \<Rightarrow>
            abort st p r0 =
              Some (Returned (raw_reject (snd (default_reason st r0)) t (fst (default_reason st r0))))
        | Some (Plus s) \<Rightarrow>
            (\<exists>st'. abort st p r0 = Some (Returned st') \<and>
               (\<exists>e. abortLog st' = abortLog st @ (s, fst (default_reason st r0)) # e) \<and>
               sig_aborted st' (Plus s) \<and>
               (\<not> sig_aborted st (Plus s) \<longrightarrow>
                  sig_reason st' (Plus s) = fst (default_reason st r0)))
        | Some (Native n) \<Rightarrow>
            (own_reason (sigs st ! n) = None \<or>
             own_reason (sigs st ! n) = Some (fst (default_reason st r0)) \<longrightarrow>
             (\<exists>st'. abort st p r0 = Some (Returned st') \<and>
                own_aborted (sigs st' ! n) = Some True \<and>
                own_reason (sigs st' ! n) = Some (fst (default_reason st r0)) \<and>
                sig_aborted st' (Native n) \<and>
                sig_reason st' (Native n) = fst (default_reason st r0) \<and>
                (\<forall>l once. (l, once) \<in> set (listeners (sigs st' ! n)) \<longrightarrow>
                     (l, once) \<in> set (listeners (sigs st ! n)) \<and> \<not> once) \<and>
                (\<forall>p' sg' once t'. (ListenCb p' sg', once) \<in> set (listeners (sigs st ! n)) \<longrightarrow>
                     sig_native st sg' = n \<longrightarrow>
                     walk (parent_of st) (settled_of st) p' = Some t' \<longrightarrow>
                     (t', fst (default_reason st r0)) \<in> set (rejectLog st')))))"
proof -
  from assms have "chain_ok st" "p < length (nodes st)" by (simp_all add: wf_state_def bound_ok_def)
  then obtain t where w: "walk (parent_of st) (settled_of st) p = Some t"
    using doAbort_total by blast
  have "case signal (nodes st ! p) of
          None \<Rightarrow>
            abort st p r0 =
              Some (Returned (raw_reject (snd (default_reason st r0)) t (fst (default_reason st r0))))
        | Some (Plus s) \<Rightarrow>
            (\<exists>st'. abort st p r0 = Some (Returned st') \<and>
               (\<exists>e. abortLog st' = abortLog st @ (s, fst (default_reason st r0)) # e) \<and>
               sig_aborted st' (Plus s) \<and>
               (\<not> sig_aborted st (Plus s) \<longrightarrow>
                  sig_reason st' (Plus s) = fst (default_reason st r0)))
        | Some (Native n) \<Rightarrow>
            (own_reason (sigs st ! n) = None \<or>
             own_reason (sigs st ! n) = Some (fst (default_reason st r0)) \<longrightarrow>
             (\<exists>st'. abort st p r0 = Some (Returned st') \<and>
                own_aborted (sigs st' ! n) = Some True \<and>
                own_reason (sigs st' ! n) = Some (fst (default_reason st r0)) \<and>
                sig_aborted st' (Native n) \<and>
                sig_reason st' (Native n) = fst (default_reason st r0) \<and>
                (\<forall>l once. (l, once) \<in> set (listeners (sigs st' ! n)) \<longrightarrow>
                     (l, once) \<in> set (listeners (sigs st ! n)) \<and> \<not> once) \<and>
                (\<forall>p' sg' once t'. (ListenCb p' sg', once) \<in> set (listeners (sigs st ! n)) \<longrightarrow>
                     sig_native st sg' = n \<longrightarrow>
                     walk (parent_of st) (settled_of st) p' = Some t' \<longrightarrow>
                     (t', fst (default_reason st r0)) \<in> set (rejectLog st'))))"
  proof (cases "signal (nodes st ! p)")
    case None
    then show ?thesis by (simp add: abort_unbound [OF w None])
  next
    case (Some sg)
    with assms(2) have ok: "sig_ok st sg" by (simp add: bound_ok_def)
    show ?thesis
    proof (cases sg)
      case (Plus s)
      with ok have s: "s < length (pluses st)" by (simp add: sig_ok_def)
      from abort_Plus [OF assms(1) w Some [unfolded Plus] s, of r0]
      show ?thesis unfolding Some Plus by simp blast
    next
      case (Native n)
      with ok have n: "n < length (sigs st)" by (simp add: sig_ok_def)
      note bn = Some [unfolded Native]
      have "own_reason (sigs st ! n) = None \<or>
             own_reason (sigs st ! n) = Some (fst (default_reason st r0)) \<longrightarrow>
             (\<exists>st'. abort st p r0 = Some (Returned st') \<and>
                own_aborted (sigs st' ! n) = Some True \<and>
                own_reason (sigs st' ! n) = Some (fst (default_reason st r0)) \<and>
                sig_aborted st' (Native n) \<and>
                sig_reason st' (Native n) = fst (default_reason st r0) \<and>
                (\<forall>l once. (l, once) \<in> set (listeners (sigs st' ! n)) \<longrightarrow>
                     (l, once) \<in> set (listeners (sigs st ! n)) \<and> \<not> once) \<and>
                (\<forall>p' sg' once t'. (ListenCb p' sg', once) \<in> set (listeners (sigs st ! n)) \<longrightarrow>
                     sig_native st sg' = n \<longrightarrow>
                     walk (parent_of st) (settled_of st) p' = Some t' \<longrightarrow>
                     (t', fst (default_reason st r0)) \<in> set (rejectLog st')))"
      proof
        assume o: "own_reason (sigs st ! n) = None \<or>
                   own_reason (sigs st ! n) = Some (fst (default_reason st r0))"
        from abort_Native [OF assms(1) w bn n o] obtain st' where
          a: "abort st p r0 = Some (Returned st')"
          and 1: "own_aborted (sigs st' ! n) = Some True"
            "own_reason (sigs st' ! n) = Some (fst (default_reason st r0))"
          and 2: "\<forall>l once. (l, once) \<in> set (listeners (sigs st' ! n)) \<longrightarrow>
                     (l, once) \<in> set (listeners (sigs st ! n)) \<and> \<not> once"
          and 3: "\<forall>p' sg' once t'. (ListenCb p' sg', once) \<in> set (listeners (sigs st ! n)) \<longrightarrow>
                     sig_native st sg' = n \<longrightarrow>
                     walk (parent_of st) (settled_of st) p' = Some t' \<longrightarrow>
                     (t', fst (default_reason st r0)) \<in> set (rejectLog st')"
          by blast
        from 1 have 4: "sig_aborted st' (Native n)"
          "sig_reason st' (Native n) = fst (default_reason st r0)"
          by (simp_all add: sig_aborted_def sig_reason_def sig_native_def)
        from a 1 2 3 4 show "\<exists>st'. abort st p r0 = Some (Returned st') \<and>
                own_aborted (sigs st' ! n) = Some True \<and>
                own_reason (sigs st' ! n) = Some (fst (default_reason st r0)) \<and>
                sig_aborted st' (Native n) \<and>
                sig_reason st' (Native n) = fst (default_reason st r0) \<and>
                (\<forall>l once. (l, once) \<in> set (listeners (sigs st' ! n)) \<longrightarrow>
                     (l, once) \<in> set (listeners (sigs st ! n)) \<and> \<not> once) \<and>
                (\<forall>p' sg' once t'. (ListenCb p' sg', once) \<in> set (listeners (sigs st ! n)) \<longrightarrow>
                     sig_native st sg' = n \<longrightarrow>
                     walk (parent_of st) (settled_of st) p' = Some t' \<longrightarrow>
                     (t', fst (default_reason st r0)) \<in> set (rejectLog st'))" by blast
      qed
      then show ?thesis unfolding Some Native by simp
    qed
  qed
  with w show ?thesis by blast
qed

text \<open>
  C8 as stated says that the bound signal ends up aborted with the reason given to \<open>abort\<close>.
  A signal that was aborted before, here with \<open>''X''\<close>, keeps its reason: the controller's
  \<open>abort(''Y'')\<close> is called and changes nothing.
\<close>

theorem abort_keeps_the_reason_of_an_aborted_signal:
  "abort bound_to_aborted 0 (Str ''Y'') =
     Some (Returned (bound_to_aborted
       \<lparr>rejectLog := [(0, Str ''X''), (0, Str ''Y'')],
        abortLog := [(0, Str ''X''), (0, Str ''Y'')]\<rparr>)) \<and>
   sig_aborted bound_to_aborted (Plus 0) \<and>
   sig_reason (bound_to_aborted
       \<lparr>rejectLog := [(0, Str ''X''), (0, Str ''Y'')],
        abortLog := [(0, Str ''X''), (0, Str ''Y'')]\<rparr>) (Plus 0) = Str ''X''"
  by (simp add: eval_defs bound_to_aborted_def walk.simps)

text \<open>
  A pending node bound to the signal of a new controller: \<open>abort(''R'')\<close> calls the
  controller's \<open>abort(''R'')\<close> and the signal is aborted with \<open>''R''\<close>.
\<close>

theorem abort_marks_the_bound_signal_witness:
  "wf_state bound_node \<and> bound_ok bound_node 0 \<and> \<not> sig_aborted bound_node (Plus 0) \<and>
   (\<exists>st'. abort bound_node 0 (Str ''R'') = Some (Returned st') \<and>
      (\<exists>e. abortLog st' = abortLog bound_node @ (0, Str ''R'') # e) \<and>
      sig_aborted st' (Plus 0) \<and> sig_reason st' (Plus 0) = Str ''R'')"
proof -
  have b: "bound_ok bound_node 0" "signal (nodes bound_node ! 0) = Some (Plus 0)"
    by (simp_all add: bound_ok_def sig_ok_def bound_node_def)
  have u: "\<not> sig_aborted bound_node (Plus 0)"
    by (simp add: sig_aborted_def sig_native_def bound_node_def)
  have d: "default_reason bound_node (Str ''R'') = (Str ''R'', bound_node)"
    by (simp add: default_reason_def nullish_def)
  from abort_marks_the_bound_signal [OF wf_bound_node b(1), of "Str ''R''"] u
  have "\<exists>st'. abort bound_node 0 (Str ''R'') = Some (Returned st') \<and>
      (\<exists>e. abortLog st' = abortLog bound_node @ (0, Str ''R'') # e) \<and>
      sig_aborted st' (Plus 0) \<and> sig_reason st' (Plus 0) = Str ''R''"
    unfolding b(2) d by auto
  with wf_bound_node b(1) u show ?thesis by blast
qed

text \<open>
  C9. \<open>abort\<close> can throw. A promise is constructed with the signal of a native
  \<open>AbortController\<close> and aborted with \<open>''a''\<close>: the call returns and has defined the own
  properties \<open>aborted\<close> and \<open>reason\<close> of the signal, which \<open>Object.defineProperty\<close> makes
  neither writable nor configurable. The next \<open>abort(''b'')\<close> rejects the node once more, to
  no effect, and then throws the \<open>TypeError\<close> of redefining \<open>reason\<close> with another value.
\<close>

theorem second_abort_of_a_native_signal_throws:
  "construct native_signal [] (Some (Native 0)) = Some (bound_native, 0) \<and>
   abort bound_native 0 (Str ''a'') = Some (Returned aborted_native) \<and>
   abort aborted_native 0 (Str ''b'') =
     Some (Thrown TypeError (aborted_native
       \<lparr>rejectLog := [(0, Str ''a''), (0, Str ''a''), (0, Str ''b'')]\<rparr>))"
  by (simp add: eval_defs native_signal_def bound_native_def aborted_native_def walk.simps)

end
